theory Spec2Isabelle
  imports Complex_Main
begin

section \<open>JavaScript strings\<close>

text \<open>
  A JavaScript string is a sequence of UTF-16 code units; \<open>length\<close>, indexing and
  \<open>===\<close> all work on code units. The model keeps a string as the list of its code
  units, each an integer from 0 to 65535, so that the byte-order mark \<open>U+FEFF\<close> (65279)
  is one element, as it is for the program. No function of the model leaves that range:
  the only arithmetic on a code unit adds 32 to a capital letter below 223.
  \<open>js\<close> embeds an ASCII literal.
\<close>

type_synonym jschar = int

type_synonym jsstring = "jschar list"

definition js :: "string \<Rightarrow> jsstring" where
  "js s = map of_char s"

text \<open>
  \<open>String.prototype.trim\<close> removes WhiteSpace and LineTerminator code points from both
  ends (ECMAScript 22.1.3.32): TAB, LF, VT, FF, CR, SP, NBSP, U+1680, U+2000..U+200A,
  U+2028, U+2029, U+202F, U+205F, U+3000 and U+FEFF.
\<close>

definition isWhiteSpace :: "jschar \<Rightarrow> bool" where
  "isWhiteSpace c =
     (c \<in> set [9, 10, 11, 12, 13, 32, 160, 5760, 8232, 8233, 8239, 8287, 12288, 65279]
      \<or> (8192 \<le> c \<and> c \<le> 8202))"

definition trim :: "jsstring \<Rightarrow> jsstring" where
  "trim s = rev (dropWhile isWhiteSpace (rev (dropWhile isWhiteSpace s)))"

text \<open>
  \<open>toLowerCase\<close> is modelled code unit by code unit: \<open>A..Z\<close> and the Latin-1 capitals
  \<open>U+00C0..U+00DE\<close> (without the multiplication sign \<open>U+00D7\<close>) move up by 32, every
  other code unit stays. This is the Unicode mapping on every string whose code units are
  below 256; the case tables beyond Latin-1 are not part of the model.
\<close>

definition lowerUnit :: "jschar \<Rightarrow> jschar" where
  "lowerUnit c = (if (65 \<le> c \<and> c \<le> 90) \<or> (192 \<le> c \<and> c \<le> 222 \<and> c \<noteq> 215) then c + 32 else c)"

definition toLowerCase :: "jsstring \<Rightarrow> jsstring" where
  "toLowerCase s = map lowerUnit s"

text \<open>\<^verbatim>\<open>const norm = (s) => (s || "").toString().toLowerCase();\<close> on a string argument.\<close>

definition normStr :: "jsstring \<Rightarrow> jsstring" where
  "normStr s = toLowerCase s"

text \<open>\<open>t.includes(k)\<close>: \<open>k\<close> occurs in \<open>t\<close> as a contiguous run of code units.\<close>

fun startsWith :: "jsstring \<Rightarrow> jsstring \<Rightarrow> bool" where
  "startsWith t [] = True"
| "startsWith [] (k # ks) = False"
| "startsWith (c # cs) (k # ks) = (c = k \<and> startsWith cs ks)"

fun includesStr :: "jsstring \<Rightarrow> jsstring \<Rightarrow> bool" where
  "includesStr [] k = (k = [])"
| "includesStr (c # cs) k = (startsWith (c # cs) k \<or> includesStr cs k)"

text \<open>\<open>s.split(sep)\<close> for a separator of one code unit.\<close>

fun splitOn :: "jschar \<Rightarrow> jsstring \<Rightarrow> jsstring list" where
  "splitOn sep [] = [[]]"
| "splitOn sep (c # cs) =
     (if c = sep then [] # splitOn sep cs
      else (case splitOn sep cs of [] \<Rightarrow> [[c]] | p # ps \<Rightarrow> (c # p) # ps))"

section \<open>Delimiter detection\<close>

text \<open>\<^verbatim>\<open>.replace(/^\uFEFF/, "")\<close>: one leading byte-order mark is removed.\<close>

definition stripBOM :: "jsstring \<Rightarrow> jsstring" where
  "stripBOM s = (case s of [] \<Rightarrow> [] | c # cs \<Rightarrow> if c = 65279 then cs else s)"

text \<open>\<^verbatim>\<open>(line.match(/x/g) || []).length\<close> for a single code unit \<open>x\<close>.\<close>

definition countOf :: "jschar \<Rightarrow> jsstring \<Rightarrow> nat" where
  "countOf x line = length (filter (\<lambda>c. c = x) line)"

text \<open>The result is the delimiter's code unit: 59 is \<open>;\<close>, 9 is TAB, 44 is the comma.\<close>

definition detectDelimiter :: "jsstring \<Rightarrow> jschar" where
  "detectDelimiter firstLine =
     (let line = stripBOM firstLine;
          commas = countOf 44 line;
          semis = countOf 59 line;
          tabs = countOf 9 line
      in if semis > commas \<and> semis \<ge> tabs then 59
         else if tabs > commas \<and> tabs > semis then 9
         else 44)"

section \<open>The CSV parser\<close>

text \<open>\<^verbatim>\<open>raw.split(/\r?\n/)[0] || ""\<close>: the text before the first \<open>\n\<close> or \<open>\r\n\<close>.\<close>

fun firstLineOf :: "jsstring \<Rightarrow> jsstring" where
  "firstLineOf [] = []"
| "firstLineOf (c # cs) =
     (if c = 10 then []
      else if c = 13 \<and> (case cs of [] \<Rightarrow> False | d # _ \<Rightarrow> d = 10) then []
      else c # firstLineOf cs)"

text \<open>
  The mutable locals of \<open>parseCSV\<close>'s scanning loop. The index \<open>i\<close> is the position in
  the input; the model recurses on the rest of the input instead.
\<close>

record parser =
  field :: jsstring
  row :: "jsstring list"
  rows :: "jsstring list list"
  inQuotes :: bool

definition pushField :: "parser \<Rightarrow> parser" where
  "pushField st = st\<lparr>row := row st @ [field st], field := []\<rparr>"

definition pushRow :: "parser \<Rightarrow> parser" where
  "pushRow st = st\<lparr>rows := rows st @ [row st], row := []\<rparr>"

text \<open>The \<open>while (i < raw.length)\<close> loop; 34 is the double quote, 10 is LF, 13 is CR.\<close>

fun parseLoop :: "jschar \<Rightarrow> jsstring \<Rightarrow> parser \<Rightarrow> parser" where
  "parseLoop DELIM [] st = st"
| "parseLoop DELIM (c # cs) st =
     (if inQuotes st then
        (if c = 34 then
           (case cs of
              [] \<Rightarrow> parseLoop DELIM cs (st\<lparr>inQuotes := False\<rparr>)
            | d # ds \<Rightarrow>
                if d = 34 then parseLoop DELIM ds (st\<lparr>field := field st @ [34]\<rparr>)
                else parseLoop DELIM cs (st\<lparr>inQuotes := False\<rparr>))
         else parseLoop DELIM cs (st\<lparr>field := field st @ [c]\<rparr>))
      else if c = 34 then parseLoop DELIM cs (st\<lparr>inQuotes := True\<rparr>)
      else if c = DELIM then parseLoop DELIM cs (pushField st)
      else if c = 10 then parseLoop DELIM cs (pushRow (pushField st))
      else if c = 13 then parseLoop DELIM cs st
      else parseLoop DELIM cs (st\<lparr>field := field st @ [c]\<rparr>))"

text \<open>
  The loop from the initial state, then the final \<open>pushField()\<close> and the conditional
  \<open>pushRow()\<close>. After \<open>pushField\<close> the row is never empty, so \<open>row[0]\<close> exists.
\<close>

definition parseRows :: "jschar \<Rightarrow> jsstring \<Rightarrow> jsstring list list" where
  "parseRows DELIM raw =
     (let st = pushField (parseLoop DELIM raw \<lparr>field = [], row = [], rows = [], inQuotes = False\<rparr>)
      in if length (row st) > 1 \<or> hd (row st) \<noteq> [] then rows (pushRow st) else rows st)"

section \<open>Row objects\<close>

text \<open>
  A cell of a parsed row is a string, or \<open>undefined\<close> where the row is shorter than the
  header. An object is the list of its own properties in creation order.
\<close>

type_synonym jsval = "jsstring option"

type_synonym jsobj = "(jsstring \<times> jsval) list"

text \<open>\<open>v || ""\<close>, truthiness and \<open>a || b\<close> on values that are a string or \<open>undefined\<close>.\<close>

definition orEmpty :: "jsval \<Rightarrow> jsstring" where
  "orEmpty v = (case v of None \<Rightarrow> [] | Some s \<Rightarrow> s)"

definition truthy :: "jsval \<Rightarrow> bool" where
  "truthy v = (case v of None \<Rightarrow> False | Some s \<Rightarrow> s \<noteq> [])"

definition orElse :: "jsval \<Rightarrow> jsval \<Rightarrow> jsval" where
  "orElse a b = (if truthy a then a else b)"

text \<open>
  Insertion-ordered tables (a JavaScript \<open>Map\<close>, or the string-keyed properties of an
  object): \<open>has\<close>, \<open>set\<close> of a key that is absent, and mutation of the value stored
  under a key.
\<close>

definition mapHas :: "'k \<Rightarrow> ('k \<times> 'v) list \<Rightarrow> bool" where
  "mapHas k mp = (k \<in> set (map fst mp))"

definition mapSetIfAbsent :: "'k \<Rightarrow> 'v \<Rightarrow> ('k \<times> 'v) list \<Rightarrow> ('k \<times> 'v) list" where
  "mapSetIfAbsent k v mp = (if mapHas k mp then mp else mp @ [(k, v)])"

definition mapUpdate :: "'k \<Rightarrow> ('v \<Rightarrow> 'v) \<Rightarrow> ('k \<times> 'v) list \<Rightarrow> ('k \<times> 'v) list" where
  "mapUpdate k f mp = map (\<lambda>(k', v). if k' = k then (k', f v) else (k', v)) mp"

text \<open>
  \<open>obj[k] = v\<close> on an ordinary object whose values are strings or \<open>undefined\<close>. The
  key \<open>__proto__\<close> is the accessor of \<open>Object.prototype\<close>: its setter ignores a value
  that is neither an object nor \<open>null\<close>, so no property is created.
\<close>

definition objSet :: "jsstring \<Rightarrow> jsval \<Rightarrow> jsobj \<Rightarrow> jsobj" where
  "objSet k v obj =
     (if k = js ''__proto__'' then obj
      else mapUpdate k (\<lambda>_. v) (mapSetIfAbsent k v obj))"

text \<open>\<open>obj[k]\<close> for a key that \<open>Object.prototype\<close> does not define.\<close>

definition objGet :: "jsobj \<Rightarrow> jsstring \<Rightarrow> jsval" where
  "objGet obj k = (case map_of obj k of None \<Rightarrow> None | Some v \<Rightarrow> v)"

definition isDigit :: "jschar \<Rightarrow> bool" where
  "isDigit c = (48 \<le> c \<and> c \<le> 57)"

definition decimalValue :: "jsstring \<Rightarrow> nat" where
  "decimalValue s = foldl (\<lambda>n c. 10 * n + nat (c - 48)) 0 s"

text \<open>
  A stable sort by a comparator, as \<open>Array.prototype.sort\<close> is since ES2019: insertion
  from the right keeps equal elements in their order.
\<close>

fun insertBy :: "('a \<Rightarrow> 'a \<Rightarrow> int) \<Rightarrow> 'a \<Rightarrow> 'a list \<Rightarrow> 'a list" where
  "insertBy cmp x [] = [x]"
| "insertBy cmp x (y # ys) = (if cmp x y \<le> 0 then x # y # ys else y # insertBy cmp x ys)"

definition sortBy :: "('a \<Rightarrow> 'a \<Rightarrow> int) \<Rightarrow> 'a list \<Rightarrow> 'a list" where
  "sortBy cmp xs = foldr (insertBy cmp) xs []"

text \<open>
  \<open>Object.keys\<close>: the keys that are array indices (canonical decimal numerals below
  \<open>2^32 - 1\<close>) come first in ascending numeric order, the other keys follow in creation
  order.
\<close>

definition isArrayIndex :: "jsstring \<Rightarrow> bool" where
  "isArrayIndex k =
     (k \<noteq> [] \<and> list_all isDigit k \<and> (k = [48] \<or> hd k \<noteq> 48) \<and> decimalValue k < 4294967295)"

definition objectKeys :: "jsobj \<Rightarrow> jsstring list" where
  "objectKeys obj =
     (let ks = map fst obj
      in sortBy (\<lambda>a b. int (decimalValue a) - int (decimalValue b)) (filter isArrayIndex ks)
         @ filter (\<lambda>k. \<not> isArrayIndex k) ks)"

definition objectValues :: "jsobj \<Rightarrow> jsval list" where
  "objectValues obj = map (objGet obj) (objectKeys obj)"

text \<open>
  \<^verbatim>\<open>for (let c = 0; c < header.length; c++) obj[header[c]] = rows[r][c];\<close>
  A cell beyond the end of the row is \<open>undefined\<close>.
\<close>

fun assignCells :: "jsstring list \<Rightarrow> jsstring list \<Rightarrow> jsobj \<Rightarrow> jsobj" where
  "assignCells [] cells obj = obj"
| "assignCells (h # hs) cells obj =
     assignCells hs (tl cells) (objSet h (case cells of [] \<Rightarrow> None | v # _ \<Rightarrow> Some v) obj)"

definition parseCSV :: "jsstring \<Rightarrow> jsobj list" where
  "parseCSV text' =
     (let raw = stripBOM text';
          DELIM = detectDelimiter (firstLineOf raw);
          rws = parseRows DELIM raw;
          header = map trim (case rws of [] \<Rightarrow> [] | h # _ \<Rightarrow> h)
      in if header = [] \<or> list_all (\<lambda>h. h = []) header then []
         else filter (\<lambda>obj. list_ex (\<lambda>v. trim (orEmpty v) \<noteq> []) (objectValues obj))
                (map (\<lambda>cells. assignCells header cells []) (tl rws)))"

section \<open>Months\<close>

text \<open>
  The two built-ins whose result ECMAScript leaves to the implementation are parameters
  of the model: \<open>String.prototype.localeCompare\<close> (negative, zero or positive), and
  \<open>new Date(t)\<close> for a string \<open>t\<close>, read through \<open>getFullYear()\<close> and \<open>getMonth()\<close>
  (\<open>None\<close> when the time value is \<open>NaN\<close>).
\<close>

record host =
  localeCompare :: "jsstring \<Rightarrow> jsstring \<Rightarrow> int"
  dateParse :: "jsstring \<Rightarrow> (int \<times> nat) option"

text \<open>
  Numbers are integers here (exact below \<open>2^53\<close>, which covers every year a month string
  of the normalizer can carry); \<open>String(n)\<close> is the decimal numeral.
\<close>

fun showNat :: "nat \<Rightarrow> jsstring" where
  "showNat n = (if n < 10 then [48 + int n] else showNat (n div 10) @ [48 + int (n mod 10)])"

declare showNat.simps [simp del]

definition showInt :: "int \<Rightarrow> jsstring" where
  "showInt i = (if i < 0 then 45 # showNat (nat (- i)) else showNat (nat i))"

text \<open>\<open>s.padStart(2, "0")\<close>\<close>

definition padStart2 :: "jsstring \<Rightarrow> jsstring" where
  "padStart2 s = replicate (2 - length s) 48 @ s"

text \<open>
  \<open>parseInt(x, 10)\<close>: leading white space is skipped, a sign is read, then the longest
  run of decimal digits; \<open>None\<close> is \<open>NaN\<close>.
\<close>

definition parseInt :: "jsstring \<Rightarrow> int option" where
  "parseInt x =
     (let s = dropWhile isWhiteSpace x;
          neg = (case s of [] \<Rightarrow> False | c # _ \<Rightarrow> c = 45);
          body = (case s of [] \<Rightarrow> [] | c # cs \<Rightarrow> if c = 45 \<or> c = 43 then cs else s);
          ds = takeWhile isDigit body
      in if ds = [] then None
         else Some (if neg then - int (decimalValue ds) else int (decimalValue ds)))"

text \<open>\<^verbatim>\<open>/(\d{4})-(\d{2})/\<close> at the start of a string, and its leftmost match with both groups.\<close>

fun matchYM :: "jsstring \<Rightarrow> bool" where
  "matchYM (a # b # c # d # e # f # g # rest) =
     (isDigit a \<and> isDigit b \<and> isDigit c \<and> isDigit d \<and> e = 45 \<and> isDigit f \<and> isDigit g)"
| "matchYM _ = False"

fun findYM :: "jsstring \<Rightarrow> (jsstring \<times> jsstring) option" where
  "findYM [] = None"
| "findYM (c # cs) =
     (if matchYM (c # cs) then Some (take 4 (c # cs), take 2 (drop 5 (c # cs))) else findYM cs)"

definition monthFromDateString :: "host \<Rightarrow> jsval \<Rightarrow> jsstring" where
  "monthFromDateString h s =
     (let t = trim (orEmpty s)
      in if t = [] then []
         else if length t = 7 \<and> matchYM t then t
         else (case findYM t of
                 Some (m1, m2) \<Rightarrow> m1 @ [45] @ m2
               | None \<Rightarrow>
                  (case dateParse h t of
                     None \<Rightarrow> []
                   | Some (yyyy, mon) \<Rightarrow> showInt yyyy @ [45] @ padStart2 (showNat (mon + 1)))))"

text \<open>
  \<open>nextMonth\<close>: \<open>y\<close> and \<open>m\<close> are the first two pieces of the split at \<open>-\<close>; a missing
  piece is \<open>undefined\<close>, and \<open>!y || !m\<close> holds for \<open>undefined\<close>, \<open>NaN\<close> and 0.
\<close>

definition nextMonth :: "jsstring \<Rightarrow> jsstring" where
  "nextMonth yyyyMm =
     (case map parseInt (splitOn 45 yyyyMm) of
        Some y # Some m # _ \<Rightarrow>
          if y = 0 \<or> m = 0 then []
          else (let ny = (if m = 12 then y + 1 else y);
                    nm = (if m = 12 then 1 else m + 1)
                in showInt ny @ [45] @ padStart2 (showInt nm))
      | _ \<Rightarrow> [])"

section \<open>Personas and the classifier\<close>

text \<open>The catalog \<open>PERSONAS\<close>, with the fields the pipeline reads (key and priority).\<close>

record persona =
  key :: jsstring
  priority :: int

definition PERSONAS :: "persona list" where
  "PERSONAS =
     [\<lparr>key = js ''trust_erosion'', priority = 1\<rparr>,
      \<lparr>key = js ''emotional'', priority = 2\<rparr>,
      \<lparr>key = js ''escalation'', priority = 3\<rparr>,
      \<lparr>key = js ''reliability'', priority = 4\<rparr>,
      \<lparr>key = js ''overload'', priority = 5\<rparr>,
      \<lparr>key = js ''veteran'', priority = 6\<rparr>,
      \<lparr>key = js ''suggestion'', priority = 7\<rparr>]"

text \<open>A keyword dictionary maps a persona key to its keyword list, or to nothing.\<close>

type_synonym keywordDict = "jsstring \<Rightarrow> jsstring list option"

definition DEFAULT_KEYWORDS :: keywordDict where
  "DEFAULT_KEYWORDS = map_of
     [(js ''trust_erosion'',
        map js [''vertrouwen'', ''betrouwbaar'', ''onbetrouwbaar'', ''ik reken hierop'',
                ''ik durf niet'', ''kan hier niet op vertrouwen'', ''onzeker'',
                ''voelt niet veilig'', ''niet veilig'']),
      (js ''veteran'',
        map js [''al jaren'', ''dagelijks'', ''elke rit'', ''altijd gebruikt'',
                ''sinds het begin'', ''onderdeel van mijn routine'', ''ik ben afhankelijk'',
                ''afhankelijk'', ''routine'']),
      (js ''reliability'',
        map js [''onvoorspelbaar'', ''inconsistent'', ''werkt soms'', ''soms wel'',
                ''soms niet'', ''wisselend'', ''niet consequent'', ''foutmeldingen'',
                ''valt uit'', ''crash'', ''loopt vast'']),
      (js ''escalation'',
        map js [''weer'', ''opnieuw'', ''al vaker gemeld'', ''niet de eerste keer'',
                ''al meerdere keren'', ''nog steeds'', ''al eens'', ''al gemeld'']),
      (js ''overload'',
        map js [''ik snap niet waarom'', ''onduidelijk'', ''logica ontbreekt'',
                ''waarom doet hij dit'', ''niet uit te leggen'', ''tegenstrijdig'',
                ''klopt niet'']),
      (js ''emotional'',
        map js [''frustrerend'', ''klaar mee'', ''irritant'', ''teleurgesteld'',
                ''dit werkt zo niet'', ''zo wordt het lastig'', ''word ik gek van'']),
      (js ''suggestion'',
        map js [''zou handig zijn'', ''misschien kunnen jullie'', ''ik mis'',
                ''ik vraag me af waarom'', ''zou fijn zijn'', ''kunnen jullie'', ''idee:''])]"

text \<open>\<open>flags[k]\<close> of the flags object; a key that is absent reads as falsy.\<close>

definition flagOf :: "(jsstring \<times> bool) list \<Rightarrow> jsstring \<Rightarrow> bool" where
  "flagOf flags k = (case map_of flags k of None \<Rightarrow> False | Some b \<Rightarrow> b)"

text \<open>The result is the pair of \<open>persona\<close> (\<open>None\<close> is \<open>null\<close>) and \<open>flags\<close>.\<close>

definition classifyDominantPersona ::
  "jsstring \<Rightarrow> keywordDict \<Rightarrow> jsstring option \<times> (jsstring \<times> bool) list" where
  "classifyDominantPersona text' keywords =
     (let t = normStr text';
          flags = map (\<lambda>p. (key p,
                     list_ex (\<lambda>kw. includesStr t (normStr kw))
                       (case keywords (key p) of None \<Rightarrow> [] | Some l \<Rightarrow> l))) PERSONAS;
          any = list_ex (\<lambda>b. b) (map snd flags)
      in if \<not> any then (None, flags)
         else (case find (\<lambda>p. flagOf flags (key p))
                      (sortBy (\<lambda>a b. priority a - priority b) PERSONAS) of
                 Some p \<Rightarrow> (Some (key p), flags)
               | None \<Rightarrow> (None, flags)))"

text \<open>
  The keyword editor's \<open>onChange\<close>:
  \<^verbatim>\<open>e.target.value.split(",").map((x) => x.trim()).filter(Boolean)\<close>
\<close>

definition editKeywords :: "jsstring \<Rightarrow> jsstring list" where
  "editKeywords v = filter (\<lambda>x. x \<noteq> []) (map trim (splitOn 44 v))"

section \<open>The schema normalizer\<close>

text \<open>
  A user-month row. \<open>active_next_month\<close> is the raw string after normalization and the
  resolved boolean after classification, so its type is a parameter.
\<close>

record 'a um_row =
  user_id :: jsstring
  month :: jsstring
  text' :: jsstring
  active_next_month :: 'a

definition suggestionHeader :: jsstring where
  "suggestionHeader = js (''Beschrijf je suggestie hieronder zo duidelijk mogelijk. Heb j... ''
     @ ''voordeel kan zijn voor je medegebruikers? Laat dit dan weten.'')"

definition pickSuggestionText :: "jsobj \<Rightarrow> jsval" where
  "pickSuggestionText obj =
     (let exact = objGet obj suggestionHeader
      in if truthy exact \<and> trim (orEmpty exact) \<noteq> [] then exact
         else (case find (\<lambda>k. (includesStr (toLowerCase k) (js ''beschrijf'')
                                \<or> includesStr (toLowerCase k) (js ''suggestie''))
                               \<and> truthy (objGet obj k) \<and> trim (orEmpty (objGet obj k)) \<noteq> [])
                      (objectKeys obj) of
                 Some k \<Rightarrow> objGet obj k
               | None \<Rightarrow>
                  (let keys = objectKeys obj
                   in if length keys \<ge> 2 then objGet obj (keys ! 1)
                      else orElse (objGet obj (js ''text''))
                             (orElse (objGet obj (js ''message''))
                               (orElse (objGet obj (js ''body'')) (Some []))))))"

text \<open>The body of the \<open>.map\<close> over the raw rows; \<open>None\<close> is the \<open>null\<close> that is filtered out.\<close>

definition normalizeRow :: "host \<Rightarrow> bool \<Rightarrow> jsobj \<Rightarrow> jsstring um_row option" where
  "normalizeRow h hasMonth r =
     (let uid = trim (orEmpty
                  (orElse (objGet r (js ''user_id''))
                    (orElse (objGet r (js ''userid''))
                      (orElse (objGet r (js ''user''))
                        (orElse (objGet r (js ''Network ID''))
                          (orElse (objGet r (js ''network_id'')) (Some [])))))));
          txt = orEmpty (orElse (pickSuggestionText r) (Some []));
          mon = (if hasMonth then monthFromDateString h (objGet r (js ''month''))
                 else monthFromDateString h
                        (orElse (objGet r (js ''created_at'')) (objGet r (js ''Start Date (UTC)''))));
          anm = trim (orEmpty (objGet r (js ''active_next_month'')))
      in if uid = [] \<or> mon = [] then None
         else Some \<lparr>user_id = uid, month = mon, text' = txt, active_next_month = anm\<rparr>)"

text \<open>The key \<^verbatim>\<open>`${r.user_id}__${r.month}`\<close> of the merge table and of the presence index.\<close>

definition umKey :: "jsstring \<Rightarrow> jsstring \<Rightarrow> jsstring" where
  "umKey uid mon = uid @ js ''__'' @ mon"

text \<open>One pass of the merge loop over a normalized row; 10 is the newline.\<close>

definition mergeStep ::
  "(jsstring \<times> jsstring um_row) list \<Rightarrow> jsstring um_row \<Rightarrow> (jsstring \<times> jsstring um_row) list" where
  "mergeStep mp r =
     (let k = umKey (user_id r) (month r);
          mp1 = mapSetIfAbsent k
                  \<lparr>user_id = user_id r, month = month r, text' = [],
                   active_next_month = active_next_month r\<rparr> mp
      in mapUpdate k
           (\<lambda>cur. (let cur1 = cur\<lparr>text' := (if text' cur \<noteq> [] then text' cur @ [10] else []) @ text' r\<rparr>
                    in if active_next_month r \<noteq> [] then cur1\<lparr>active_next_month := active_next_month r\<rparr>
                       else cur1))
           mp1)"

definition mergeRows :: "jsstring um_row list \<Rightarrow> (jsstring \<times> jsstring um_row) list" where
  "mergeRows rws = foldl mergeStep [] rws"

definition normalizeRows :: "host \<Rightarrow> jsobj list \<Rightarrow> jsstring um_row list" where
  "normalizeRows h rawRows =
     (let cols = objectKeys (hd rawRows);
          hasMonth = (js ''month'' \<in> set cols)
      in List.map_filter (normalizeRow h hasMonth) rawRows)"

definition userMonthRows :: "host \<Rightarrow> jsobj list \<Rightarrow> jsstring um_row list" where
  "userMonthRows h rawRows =
     (if rawRows = [] then []
      else sortBy (\<lambda>a b. if month a = month b then localeCompare h (user_id a) (user_id b)
                          else localeCompare h (month a) (month b))
             (map snd (mergeRows (normalizeRows h rawRows))))"

section \<open>Retention and classification of the user-month rows\<close>

text \<open>The presence index: the keys of every user-month row.\<close>

definition presence :: "jsstring um_row list \<Rightarrow> (jsstring \<times> bool) list" where
  "presence umr =
     foldl (\<lambda>mp r. mapUpdate (umKey (user_id r) (month r)) (\<lambda>_. True)
                      (mapSetIfAbsent (umKey (user_id r) (month r)) True mp)) [] umr"

record classified_row = "bool um_row" +
  dominant_persona :: "jsstring option"
  flags :: "(jsstring \<times> bool) list"

definition classifyRow ::
  "keywordDict \<Rightarrow> (jsstring \<times> bool) list \<Rightarrow> jsstring um_row \<Rightarrow> classified_row" where
  "classifyRow keywords pres r =
     (let (persona, fl) = classifyDominantPersona (text' r) keywords;
          activeNext =
            (if active_next_month r \<noteq> []
             then normStr (active_next_month r) \<in> set [js ''1'', js ''true'', js ''yes'', js ''y'']
             else mapHas (umKey (user_id r) (nextMonth (month r))) pres)
      in \<lparr>user_id = user_id r, month = month r, text' = text' r,
          active_next_month = activeNext, dominant_persona = persona, flags = fl\<rparr>)"

definition classified :: "keywordDict \<Rightarrow> jsstring um_row list \<Rightarrow> classified_row list" where
  "classified keywords umr = map (classifyRow keywords (presence umr)) umr"

section \<open>The aggregator\<close>

datatype dominanceMode = dominant | multi

text \<open>
  An entry of the table \<open>agg\<close>. The three \<open>Set\<close>s are lists without repetition, in
  insertion order; only their sizes are read.
\<close>

record bucket =
  agg_month :: jsstring
  agg_persona :: jsstring
  agg_users :: "jsstring list"
  retainedUsers :: "jsstring list"
  churnedUsers :: "jsstring list"

definition setAdd :: "'a \<Rightarrow> 'a list \<Rightarrow> 'a list" where
  "setAdd x xs = (if x \<in> set xs then xs else xs @ [x])"

definition keyFor :: "jsstring \<Rightarrow> jsstring \<Rightarrow> jsstring" where
  "keyFor mon p = mon @ js ''__'' @ p"

definition ensure :: "jsstring \<Rightarrow> jsstring \<Rightarrow> (jsstring \<times> bucket) list \<Rightarrow> (jsstring \<times> bucket) list" where
  "ensure mon p agg =
     mapSetIfAbsent (keyFor mon p)
       \<lparr>agg_month = mon, agg_persona = p, agg_users = [], retainedUsers = [], churnedUsers = []\<rparr> agg"

text \<open>Which personas a record counts for; an empty persona key would be falsy.\<close>

definition personasToCount :: "dominanceMode \<Rightarrow> classified_row \<Rightarrow> jsstring list" where
  "personasToCount mode r =
     (case mode of
        dominant \<Rightarrow> (case dominant_persona r of
                        None \<Rightarrow> []
                      | Some p \<Rightarrow> if p \<noteq> [] then [p] else [])
      | multi \<Rightarrow> filter (\<lambda>k. flagOf (flags r) k) (map key PERSONAS))"

text \<open>The body of the inner loop: \<open>ensure\<close>, then the three \<open>add\<close>s on the entry.\<close>

definition countFor :: "classified_row \<Rightarrow> (jsstring \<times> bucket) list \<Rightarrow> jsstring \<Rightarrow> (jsstring \<times> bucket) list" where
  "countFor r agg p =
     mapUpdate (keyFor (month r) p)
       (\<lambda>a. (let a1 = a\<lparr>agg_users := setAdd (user_id r) (agg_users a)\<rparr>
              in if active_next_month r then a1\<lparr>retainedUsers := setAdd (user_id r) (retainedUsers a1)\<rparr>
                 else a1\<lparr>churnedUsers := setAdd (user_id r) (churnedUsers a1)\<rparr>))
       (ensure (month r) p agg)"

definition aggregate :: "dominanceMode \<Rightarrow> classified_row list \<Rightarrow> (jsstring \<times> bucket) list" where
  "aggregate mode cls = foldl (\<lambda>agg r. foldl (countFor r) agg (personasToCount mode r)) [] cls"

text \<open>
  A row of the result. \<open>retention\<close> is a JavaScript number; the model computes it in the
  rationals.
\<close>

record agg_row =
  row_month :: jsstring
  row_persona :: jsstring
  users :: nat
  retained :: nat
  churned :: nat
  retention :: rat

definition toRow :: "bucket \<Rightarrow> agg_row" where
  "toRow a =
     (let us = length (agg_users a);
          ret = length (retainedUsers a);
          chu = length (churnedUsers a)
      in \<lparr>row_month = agg_month a, row_persona = agg_persona a, users = us, retained = ret,
          churned = chu, retention = (if us \<noteq> 0 then of_nat ret / of_nat us else 0)\<rparr>)"

definition aggRows :: "dominanceMode \<Rightarrow> classified_row list \<Rightarrow> agg_row list" where
  "aggRows mode cls = map (\<lambda>(k, a). toRow a) (aggregate mode cls)"

text \<open>The table \<open>byPersona\<close>: the rows of each persona, in the order of \<open>rows\<close>.\<close>

definition byPersona :: "agg_row list \<Rightarrow> (jsstring \<times> agg_row list) list" where
  "byPersona rws =
     foldl (\<lambda>bp r. mapUpdate (row_persona r) (\<lambda>arr. arr @ [r]) (mapSetIfAbsent (row_persona r) [] bp))
       [] rws"

text \<open>A row with its month-over-month deltas; \<open>None\<close> is \<open>null\<close>.\<close>

record out_row = agg_row +
  retention_mom :: "rat option"
  users_mom :: "int option"

text \<open>
  The loop over a sorted \<open>arr\<close>; \<open>prev\<close> is \<open>arr[i - 1]\<close>, \<open>undefined\<close> at \<open>i = 0\<close>. The
  assignments change only the delta fields, so \<open>prev\<close> is read as the row it was.
\<close>

fun momLoop :: "agg_row option \<Rightarrow> agg_row list \<Rightarrow> out_row list" where
  "momLoop prev [] = []"
| "momLoop prev (a # arr) =
     \<lparr>row_month = row_month a, row_persona = row_persona a, users = users a,
      retained = retained a, churned = churned a, retention = retention a,
      retention_mom = (case prev of None \<Rightarrow> None | Some q \<Rightarrow> Some (retention a - retention q)),
      users_mom = (case prev of None \<Rightarrow> None | Some q \<Rightarrow> Some (int (users a) - int (users q)))\<rparr>
     # momLoop (Some a) arr"

definition outRows :: "host \<Rightarrow> dominanceMode \<Rightarrow> classified_row list \<Rightarrow> out_row list" where
  "outRows h mode cls =
     concat (map (\<lambda>(p, arr). momLoop None
                    (sortBy (\<lambda>a b. localeCompare h (row_month a) (row_month b)) arr))
               (byPersona (aggRows mode cls)))"

text \<open>The pipeline from the CSV text to the classified rows and to the aggregates.\<close>

definition classifiedOfCSV :: "host \<Rightarrow> keywordDict \<Rightarrow> jsstring \<Rightarrow> classified_row list" where
  "classifiedOfCSV h keywords csvText = classified keywords (userMonthRows h (parseCSV csvText))"

text \<open>A host whose \<open>localeCompare\<close> is the order of the code units and whose \<open>Date\<close>
  accepts no string: enough for month strings in \<open>YYYY-MM\<close> form.\<close>

fun codeUnitCompare :: "jsstring \<Rightarrow> jsstring \<Rightarrow> int" where
  "codeUnitCompare [] [] = 0"
| "codeUnitCompare [] (y # ys) = - 1"
| "codeUnitCompare (x # xs) [] = 1"
| "codeUnitCompare (x # xs) (y # ys) =
     (if x < y then - 1 else if y < x then 1 else codeUnitCompare xs ys)"

definition plainHost :: host where
  "plainHost = \<lparr>localeCompare = codeUnitCompare, dateParse = (\<lambda>t. None)\<rparr>"

section \<open>Predicates used in the statements\<close>

text \<open>A persona's keyword list matches a text: some keyword occurs in the lowercased text.\<close>

definition keywordsMatch :: "jsstring \<Rightarrow> keywordDict \<Rightarrow> persona \<Rightarrow> bool" where
  "keywordsMatch t keywords p =
     (\<exists>kw \<in> set (case keywords (key p) of None \<Rightarrow> [] | Some l \<Rightarrow> l).
        includesStr (normStr t) (normStr kw))"

text \<open>
  The quoting that \<open>downloadCSV\<close> applies to a cell (\<^verbatim>\<open>'"' + s.replaceAll('"', '""') + '"'\<close>):
  every double quote is doubled and the result is wrapped in double quotes.
\<close>

definition doubleQuotes :: "jsstring \<Rightarrow> jsstring" where
  "doubleQuotes s = concat (map (\<lambda>c. if c = 34 then [34, 34] else [c]) s)"

definition quoteField :: "jsstring \<Rightarrow> jsstring" where
  "quoteField s = 34 # doubleQuotes s @ [34]"

text \<open>The two data rows of the sample, under the header \<open>user_id,month,text\<close>.\<close>

definition sampleCSV :: jsstring where
  "sampleCSV = js ''user_id,month,text'' @ [10]
     @ js ''u1,2025-09,\"Ik reken hierop, maar dit voelt niet veilig.\"'' @ [10]
     @ js ''u1,2025-10,\"Nog steeds onbetrouwbaar. Klaar mee.\"''"

text \<open>The newline-join of a list of texts, as \<^verbatim>\<open>texts.join("\n")\<close>.\<close>

definition joinLines :: "jsstring list \<Rightarrow> jsstring" where
  "joinLines ts = (case ts of [] \<Rightarrow> [] | t # rest \<Rightarrow> t @ concat (map (\<lambda>x. 10 # x) rest))"

text \<open>The normalized rows that a merged record is made of: same user and same month.\<close>

definition contributing :: "'a um_row \<Rightarrow> 'b um_row list \<Rightarrow> 'b um_row list" where
  "contributing rec rws = filter (\<lambda>r. user_id r = user_id rec \<and> month r = month rec) rws"

text \<open>The key of a row in the merge table, and one step of the text accumulation.\<close>

definition rowKey :: "'a um_row \<Rightarrow> jsstring" where
  "rowKey r = umKey (user_id r) (month r)"

definition accText :: "jsstring \<Rightarrow> jsstring \<Rightarrow> jsstring" where
  "accText acc t = (if acc \<noteq> [] then acc @ [10] else []) @ t"

text \<open>
  The invariant of the merge loop after the rows \<open>rws\<close>: one entry per key, each entry
  carrying the user and month of a row with its key and the accumulated text of the rows
  with its key.
\<close>

definition mergeInv :: "jsstring um_row list \<Rightarrow> (jsstring \<times> jsstring um_row) list \<Rightarrow> bool" where
  "mergeInv rws mp \<longleftrightarrow>
     distinct (map fst mp)
     \<and> set (map fst mp) = rowKey ` set rws
     \<and> (\<forall>(k, cur) \<in> set mp.
           (\<exists>r0 \<in> set rws. rowKey r0 = k \<and> user_id cur = user_id r0 \<and> month cur = month r0)
           \<and> text' cur = foldl accText [] (map text' (filter (\<lambda>r. rowKey r = k) rws)))"

text \<open>Two rows of one user and month, the first with an empty text cell.\<close>

definition mergeCSV :: jsstring where
  "mergeCSV = js ''user_id,text,month'' @ [10] @ js ''u1,,2025-09'' @ [10] @ js ''u1,hello,2025-09''"

text \<open>One user in two consecutive months of the year 999.\<close>

definition succCSV :: jsstring where
  "succCSV = js ''user_id,text,month'' @ [10] @ js ''u1,a,0999-05'' @ [10] @ js ''u1,b,0999-06''"

text \<open>
  The calendar successor in the spec's words: a month \<open>YYYY-MM\<close> is a year of four
  digits (zero-padded) and a month of two, and the next month rolls December over to
  January of the next year.
\<close>

definition padStart4 :: "jsstring \<Rightarrow> jsstring" where
  "padStart4 s = replicate (4 - length s) 48 @ s"

definition yyyyMm :: "nat \<Rightarrow> nat \<Rightarrow> jsstring" where
  "yyyyMm y m = padStart4 (showNat y) @ [45] @ padStart2 (showNat m)"

definition calendarSuccessor :: "nat \<times> nat \<Rightarrow> nat \<times> nat" where
  "calendarSuccessor ym = (if snd ym = 12 then (fst ym + 1, 1) else (fst ym, snd ym + 1))"

text \<open>
  The pairs of a record and a persona for which the inner loop of the aggregation runs,
  in the order in which it runs.
\<close>

definition contributions :: "dominanceMode \<Rightarrow> classified_row list \<Rightarrow> (classified_row \<times> jsstring) list" where
  "contributions mode cls = concat (map (\<lambda>r. map (\<lambda>p. (r, p)) (personasToCount mode r)) cls)"

text \<open>The users that the contributions \<open>cs\<close> put into the bucket of key \<open>k\<close>, restricted by \<open>P\<close>.\<close>

definition bucketUsers ::
  "(classified_row \<Rightarrow> bool) \<Rightarrow> jsstring \<Rightarrow> (classified_row \<times> jsstring) list \<Rightarrow> jsstring set" where
  "bucketUsers P k cs =
     set (map (\<lambda>c. user_id (fst c))
            (filter (\<lambda>c. keyFor (month (fst c)) (snd c) = k \<and> P (fst c)) cs))"

text \<open>The invariant of the table \<open>agg\<close> after the contributions \<open>cs\<close>.\<close>

definition aggInv :: "(classified_row \<times> jsstring) list \<Rightarrow> (jsstring \<times> bucket) list \<Rightarrow> bool" where
  "aggInv cs agg \<longleftrightarrow>
     distinct (map fst agg)
     \<and> fst ` set agg = (\<lambda>c. keyFor (month (fst c)) (snd c)) ` set cs
     \<and> (\<forall>(k, a) \<in> set agg.
           (\<exists>c \<in> set cs. keyFor (month (fst c)) (snd c) = k
              \<and> agg_month a = month (fst c) \<and> agg_persona a = snd c)
           \<and> distinct (agg_users a) \<and> distinct (retainedUsers a) \<and> distinct (churnedUsers a)
           \<and> set (agg_users a) = bucketUsers (\<lambda>r. True) k cs
           \<and> set (retainedUsers a) = bucketUsers (\<lambda>r. active_next_month r) k cs
           \<and> set (churnedUsers a) = bucketUsers (\<lambda>r. \<not> active_next_month r) k cs)"

text \<open>The fields of an emitted row without its deltas.\<close>

definition baseRow :: "out_row \<Rightarrow> agg_row" where
  "baseRow a = \<lparr>row_month = row_month a, row_persona = row_persona a, users = users a,
                 retained = retained a, churned = churned a, retention = retention a\<rparr>"

text \<open>The invariant of the table \<open>byPersona\<close> after the rows \<open>rws\<close>.\<close>

definition groupInv :: "agg_row list \<Rightarrow> (jsstring \<times> agg_row list) list \<Rightarrow> bool" where
  "groupInv rws bp \<longleftrightarrow>
     distinct (map fst bp)
     \<and> fst ` set bp = row_persona ` set rws
     \<and> (\<forall>(p, arr) \<in> set bp. arr = filter (\<lambda>r. row_persona r = p) rws)"

text \<open>
  Rows for the delta chain: escalation texts of two users in 2025-08 and of one user in
  2025-10, and only overload texts in 2025-09.
\<close>

definition chainCSV :: jsstring where
  "chainCSV = js ''user_id,text,month'' @ [10]
     @ js ''u1,weer kapot,2025-08'' @ [10]
     @ js ''u2,opnieuw mis,2025-08'' @ [10]
     @ js ''u2,onduidelijk,2025-09'' @ [10]
     @ js ''u3,onduidelijk,2025-09'' @ [10]
     @ js ''u1,nog steeds,2025-10''"

text \<open>One row whose text matches a keyword of escalation and a keyword of overload.\<close>

definition multiCSV :: jsstring where
  "multiCSV = js ''user_id,text,month'' @ [10] @ js ''u1,Opnieuw onduidelijk,2025-09''"

section \<open>Delimiter detection\<close>

lemma js_Nil [simp]: "js [] = []"
  by (simp add: js_def)

lemma countOf_count_list: "countOf x line = count_list line x"
  by (induction line) (auto simp: countOf_def)

text \<open>
  C4. On the first line with one leading byte-order mark removed, \<open>detectDelimiter\<close>
  returns the semicolon exactly when the semicolons outnumber the commas and are at least
  as many as the tabs; otherwise the tab exactly when the tabs outnumber both the commas
  and the semicolons; otherwise the comma. In particular (the tabs not outnumbering the
  delimiter that wins): 3 commas and no semicolon give the comma, 1 comma and 2
  semicolons give the semicolon, and equal counts of commas and semicolons never give the
  semicolon.
\<close>

theorem detectDelimiter_rule:
  fixes firstLine :: jsstring
  defines "line \<equiv> stripBOM firstLine"
  defines "commas \<equiv> count_list line 44"
    and "semis \<equiv> count_list line 59"
    and "tabs \<equiv> count_list line 9"
  shows "(detectDelimiter firstLine = 59 \<longleftrightarrow> semis > commas \<and> semis \<ge> tabs)
       \<and> (detectDelimiter firstLine = 9 \<longleftrightarrow>
            \<not> (semis > commas \<and> semis \<ge> tabs) \<and> tabs > commas \<and> tabs > semis)
       \<and> (detectDelimiter firstLine = 44 \<longleftrightarrow>
            \<not> (semis > commas \<and> semis \<ge> tabs) \<and> \<not> (tabs > commas \<and> tabs > semis))
       \<and> (commas = 3 \<and> semis = 0 \<and> tabs \<le> commas \<longrightarrow> detectDelimiter firstLine = 44)
       \<and> (commas = 1 \<and> semis = 2 \<and> tabs \<le> semis \<longrightarrow> detectDelimiter firstLine = 59)
       \<and> (commas = semis \<longrightarrow> detectDelimiter firstLine \<noteq> 59)
       \<and> (commas = semis \<and> tabs \<le> commas \<longrightarrow> detectDelimiter firstLine = 44)"
  unfolding line_def commas_def semis_def tabs_def
  by (simp add: detectDelimiter_def Let_def countOf_count_list)

theorem detectDelimiter_rule_witness:
  "count_list (stripBOM (65279 # js ''a,b,c,d'')) 44 = 3
   \<and> count_list (stripBOM (65279 # js ''a,b,c,d'')) 59 = 0
   \<and> count_list (stripBOM (65279 # js ''a,b,c,d'')) 9 = 0
   \<and> detectDelimiter (65279 # js ''a,b,c,d'') = 44
   \<and> count_list (stripBOM (js ''a,b;c;d'')) 44 = 1
   \<and> count_list (stripBOM (js ''a,b;c;d'')) 59 = 2
   \<and> detectDelimiter (js ''a,b;c;d'') = 59
   \<and> count_list (stripBOM (js ''a,b;c'')) 44 = count_list (stripBOM (js ''a,b;c'')) 59
   \<and> detectDelimiter (js ''a,b;c'') = 44
   \<and> detectDelimiter [97, 9, 98, 9, 99, 44, 100] = 9"
  using detectDelimiter_rule [of "65279 # js ''a,b,c,d''"]
    detectDelimiter_rule [of "js ''a,b;c;d''"]
    detectDelimiter_rule [of "js ''a,b;c''"]
    detectDelimiter_rule [of "[97, 9, 98, 9, 99, 44, 100]"]
  by (simp add: stripBOM_def js_def)

section \<open>The classifier\<close>


lemma sortBy_PERSONAS: "sortBy (\<lambda>a b. priority a - priority b) PERSONAS = PERSONAS"
  by (simp add: sortBy_def PERSONAS_def)

lemma persona_keys:
  "map key PERSONAS = [js ''trust_erosion'', js ''emotional'', js ''escalation'', js ''reliability'',
     js ''overload'', js ''veteran'', js ''suggestion'']"
  by (simp add: PERSONAS_def)

lemma distinct_persona_keys: "distinct (map key PERSONAS)"
  by (simp add: persona_keys js_def)

lemma sorted_priorities: "sorted (map priority PERSONAS)"
  by (simp add: PERSONAS_def)

lemma distinct_priorities: "distinct (map priority PERSONAS)"
  by (simp add: PERSONAS_def)

lemma flagOf_map:
  "distinct (map k ps) \<Longrightarrow> q \<in> set ps \<Longrightarrow> flagOf (map (\<lambda>p. (k p, f p)) ps) (k q) = f q"
proof (induction ps)
  case Nil
  then show ?case by simp
next
  case (Cons p ps)
  then show ?case by (auto simp: flagOf_def image_iff)
qed

lemma find_first_min:
  "sorted (map f xs) \<Longrightarrow> find P xs = Some x \<Longrightarrow> y \<in> set xs \<Longrightarrow> P y \<Longrightarrow> f x \<le> f y"
  by (induction xs) (auto split: if_splits)

lemma find_Some_mem: "find P xs = Some x \<Longrightarrow> x \<in> set xs \<and> P x"
  by (induction xs) (auto split: if_splits)

lemma find_None_iff': "find P xs = None \<longleftrightarrow> (\<forall>x\<in>set xs. \<not> P x)"
  by (induction xs) auto

lemma classify_snd:
  "snd (classifyDominantPersona t kws) = map (\<lambda>p. (key p, keywordsMatch t kws p)) PERSONAS"
  by (simp add: classifyDominantPersona_def Let_def keywordsMatch_def list_ex_iff split: option.splits)

lemma classify_flag:
  "p \<in> set PERSONAS \<Longrightarrow> flagOf (snd (classifyDominantPersona t kws)) (key p) = keywordsMatch t kws p"
  unfolding classify_snd by (rule flagOf_map [OF distinct_persona_keys])

lemma classify_fst:
  "fst (classifyDominantPersona t kws) =
     map_option key (find (\<lambda>p. keywordsMatch t kws p) PERSONAS)"
proof -
  let ?fl = "map (\<lambda>p. (key p, keywordsMatch t kws p)) PERSONAS"
  have fl: "?fl = snd (classifyDominantPersona t kws)" by (simp add: classify_snd)
  have eq: "find (\<lambda>p. flagOf ?fl (key p)) PERSONAS = find (\<lambda>p. keywordsMatch t kws p) PERSONAS"
    by (rule find_cong) (auto simp: fl classify_flag)
  have any: "list_ex (\<lambda>b. b) (map snd ?fl) \<longleftrightarrow> (\<exists>p\<in>set PERSONAS. keywordsMatch t kws p)"
    by (auto simp: list_ex_iff)
  have "fst (classifyDominantPersona t kws) =
      (if \<not> list_ex (\<lambda>b. b) (map snd ?fl) then None
       else (case find (\<lambda>p. flagOf ?fl (key p)) (sortBy (\<lambda>a b. priority a - priority b) PERSONAS) of
               Some p \<Rightarrow> Some (key p) | None \<Rightarrow> None))"
    by (simp add: classifyDominantPersona_def Let_def keywordsMatch_def list_ex_iff split: option.splits)
  also have "\<dots> = map_option key (find (\<lambda>p. keywordsMatch t kws p) PERSONAS)"
    unfolding sortBy_PERSONAS eq any
    by (auto simp: find_None_iff' split: option.splits)
  finally show ?thesis .
qed

lemma includesStr_Nil: "includesStr t [] = True"
  by (cases t) simp_all

lemma normStr_Nil: "normStr [] = []"
  by (simp add: normStr_def toLowerCase_def)

lemma classify_dominant_least:
  assumes "p \<in> set PERSONAS" and "keywordsMatch t kws p"
  shows "\<exists>d\<in>set PERSONAS. fst (classifyDominantPersona t kws) = Some (key d) \<and> keywordsMatch t kws d
           \<and> (\<forall>q\<in>set PERSONAS. keywordsMatch t kws q \<longrightarrow> priority d \<le> priority q)"
proof -
  from assms have "find (\<lambda>p. keywordsMatch t kws p) PERSONAS \<noteq> None"
    by (auto simp: find_None_iff')
  then obtain d where d: "find (\<lambda>p. keywordsMatch t kws p) PERSONAS = Some d" by blast
  then have "d \<in> set PERSONAS" "keywordsMatch t kws d" using find_Some_mem [OF d] by auto
  moreover have "fst (classifyDominantPersona t kws) = Some (key d)" by (simp add: classify_fst d)
  moreover have "\<forall>q\<in>set PERSONAS. keywordsMatch t kws q \<longrightarrow> priority d \<le> priority q"
    using find_first_min [OF sorted_priorities d] by blast
  ultimately show ?thesis by blast
qed

lemma classify_none:
  assumes "\<forall>p\<in>set PERSONAS. \<not> keywordsMatch t kws p"
  shows "fst (classifyDominantPersona t kws) = None"
  using assms by (simp add: classify_fst find_None_iff')

lemma classify_trust_first:
  assumes "keywordsMatch t kws \<lparr>key = js ''trust_erosion'', priority = 1\<rparr>"
  shows "fst (classifyDominantPersona t kws) = Some (js ''trust_erosion'')"
  using assms by (simp add: classify_fst PERSONAS_def)

lemma trust_in_PERSONAS: "\<lparr>key = js ''trust_erosion'', priority = 1\<rparr> \<in> set PERSONAS"
  by (simp add: PERSONAS_def)

text \<open>
  C5. The flag of a persona is true exactly when one of its keywords occurs in the
  lowercased text. When no flag is true the dominant persona is \<open>null\<close>; otherwise it
  is a flagged persona whose priority is least among the flagged ones, in the catalog
  trust_erosion (1), emotional (2), escalation (3), reliability (4), overload (5),
  veteran (6), suggestion (7). In particular a text flagged for both veteran and
  trust_erosion has the dominant persona trust_erosion.
\<close>

theorem classify_dominant_priority:
  "(map (\<lambda>p. (key p, priority p)) PERSONAS =
      [(js ''trust_erosion'', 1), (js ''emotional'', 2), (js ''escalation'', 3),
       (js ''reliability'', 4), (js ''overload'', 5), (js ''veteran'', 6), (js ''suggestion'', 7)])
   \<and> (\<forall>p\<in>set PERSONAS.
         flagOf (snd (classifyDominantPersona t kws)) (key p) = keywordsMatch t kws p)
   \<and> ((\<forall>p\<in>set PERSONAS. \<not> flagOf (snd (classifyDominantPersona t kws)) (key p))
         \<longrightarrow> fst (classifyDominantPersona t kws) = None)
   \<and> ((\<exists>p\<in>set PERSONAS. flagOf (snd (classifyDominantPersona t kws)) (key p))
         \<longrightarrow> (\<exists>d\<in>set PERSONAS.
                fst (classifyDominantPersona t kws) = Some (key d)
                \<and> flagOf (snd (classifyDominantPersona t kws)) (key d)
                \<and> (\<forall>q\<in>set PERSONAS. flagOf (snd (classifyDominantPersona t kws)) (key q)
                       \<longrightarrow> priority d \<le> priority q)))
   \<and> (flagOf (snd (classifyDominantPersona t kws)) (js ''veteran'')
        \<and> flagOf (snd (classifyDominantPersona t kws)) (js ''trust_erosion'')
         \<longrightarrow> fst (classifyDominantPersona t kws) = Some (js ''trust_erosion''))"
proof (intro conjI)
  show "map (\<lambda>p. (key p, priority p)) PERSONAS =
      [(js ''trust_erosion'', 1), (js ''emotional'', 2), (js ''escalation'', 3),
       (js ''reliability'', 4), (js ''overload'', 5), (js ''veteran'', 6), (js ''suggestion'', 7)]"
    by (simp add: PERSONAS_def)
  show "\<forall>p\<in>set PERSONAS. flagOf (snd (classifyDominantPersona t kws)) (key p) = keywordsMatch t kws p"
    by (simp add: classify_flag)
  show "(\<forall>p\<in>set PERSONAS. \<not> flagOf (snd (classifyDominantPersona t kws)) (key p))
         \<longrightarrow> fst (classifyDominantPersona t kws) = None"
    by (simp add: classify_flag classify_none)
  show "(\<exists>p\<in>set PERSONAS. flagOf (snd (classifyDominantPersona t kws)) (key p))
         \<longrightarrow> (\<exists>d\<in>set PERSONAS.
                fst (classifyDominantPersona t kws) = Some (key d)
                \<and> flagOf (snd (classifyDominantPersona t kws)) (key d)
                \<and> (\<forall>q\<in>set PERSONAS. flagOf (snd (classifyDominantPersona t kws)) (key q)
                       \<longrightarrow> priority d \<le> priority q))"
  proof
    assume "\<exists>p\<in>set PERSONAS. flagOf (snd (classifyDominantPersona t kws)) (key p)"
    then obtain p where "p \<in> set PERSONAS" "keywordsMatch t kws p"
      by (auto simp: classify_flag)
    from classify_dominant_least [OF this]
    show "\<exists>d\<in>set PERSONAS.
                fst (classifyDominantPersona t kws) = Some (key d)
                \<and> flagOf (snd (classifyDominantPersona t kws)) (key d)
                \<and> (\<forall>q\<in>set PERSONAS. flagOf (snd (classifyDominantPersona t kws)) (key q)
                       \<longrightarrow> priority d \<le> priority q)"
      by (auto simp: classify_flag)
  qed
  show "flagOf (snd (classifyDominantPersona t kws)) (js ''veteran'')
        \<and> flagOf (snd (classifyDominantPersona t kws)) (js ''trust_erosion'')
         \<longrightarrow> fst (classifyDominantPersona t kws) = Some (js ''trust_erosion'')"
    using classify_flag [OF trust_in_PERSONAS, of t kws] classify_trust_first [of t kws]
    by simp
qed

theorem classify_dominant_priority_witness:
  "flagOf (snd (classifyDominantPersona (js ''Al jaren klant, maar ik durf niet meer.'') DEFAULT_KEYWORDS))
      (js ''veteran'')
   \<and> flagOf (snd (classifyDominantPersona (js ''Al jaren klant, maar ik durf niet meer.'') DEFAULT_KEYWORDS))
      (js ''trust_erosion'')
   \<and> fst (classifyDominantPersona (js ''Al jaren klant, maar ik durf niet meer.'') DEFAULT_KEYWORDS)
      = Some (js ''trust_erosion'')"
proof -
  have f: "flagOf (snd (classifyDominantPersona (js ''Al jaren klant, maar ik durf niet meer.'') DEFAULT_KEYWORDS))
      (js ''veteran'')
   \<and> flagOf (snd (classifyDominantPersona (js ''Al jaren klant, maar ik durf niet meer.'') DEFAULT_KEYWORDS))
      (js ''trust_erosion'')"
    by code_simp
  with classify_dominant_priority [of "js ''Al jaren klant, maar ik durf niet meer.''" DEFAULT_KEYWORDS]
  show ?thesis by blast
qed

text \<open>
  C10. When the keyword list given to the classifier for a persona of the catalog holds
  the empty string, that persona's flag is true for every text, the empty one included,
  and the dominant persona is not \<open>null\<close>: the classifier does not filter empty
  keywords. The keyword editor does: no list it produces holds the empty string.
\<close>

theorem empty_keyword_always_matches:
  assumes "p \<in> set PERSONAS" and "keywords (key p) = Some l" and "[] \<in> set l"
  shows "flagOf (snd (classifyDominantPersona t keywords)) (key p)
         \<and> fst (classifyDominantPersona t keywords) \<noteq> None
         \<and> [] \<notin> set (editKeywords v)"
proof -
  have m: "keywordsMatch t keywords p"
    unfolding keywordsMatch_def using assms(2,3)
    by (auto simp: normStr_Nil includesStr_Nil intro!: bexI [of _ "[]"])
  from classify_dominant_least [OF assms(1) m] have "fst (classifyDominantPersona t keywords) \<noteq> None"
    by auto
  then show ?thesis using m assms(1) by (simp add: classify_flag editKeywords_def)
qed

theorem empty_keyword_always_matches_witness:
  "\<lparr>key = js ''veteran'', priority = 6\<rparr> \<in> set PERSONAS
   \<and> (DEFAULT_KEYWORDS(js ''veteran'' \<mapsto> [js ''routine'', []])) (key \<lparr>key = js ''veteran'', priority = 6\<rparr>)
       = Some [js ''routine'', []]
   \<and> [] \<in> set [js ''routine'', []]
   \<and> flagOf (snd (classifyDominantPersona [] (DEFAULT_KEYWORDS(js ''veteran'' \<mapsto> [js ''routine'', []]))))
        (js ''veteran'')
   \<and> fst (classifyDominantPersona [] (DEFAULT_KEYWORDS(js ''veteran'' \<mapsto> [js ''routine'', []]))) \<noteq> None
   \<and> [] \<notin> set (editKeywords (js ''routine, ,''))"
proof -
  have a: "\<lparr>key = js ''veteran'', priority = 6\<rparr> \<in> set PERSONAS" by (simp add: PERSONAS_def)
  have b: "(DEFAULT_KEYWORDS(js ''veteran'' \<mapsto> [js ''routine'', []])) (key \<lparr>key = js ''veteran'', priority = 6\<rparr>)
       = Some [js ''routine'', []]" by simp
  have c: "[] \<in> set [js ''routine'', []]" by simp
  have d: "key \<lparr>key = js ''veteran'', priority = 6\<rparr> = js ''veteran''" by simp
  from empty_keyword_always_matches
    [of "\<lparr>key = js ''veteran'', priority = 6\<rparr>"
        "DEFAULT_KEYWORDS(js ''veteran'' \<mapsto> [js ''routine'', []])" "[js ''routine'', []]"
        "[]" "js ''routine, ,''", OF a b c] a b c
  show ?thesis unfolding d by blast
qed

section \<open>The CSV parser and quoted fields\<close>

lemma parseLoop_quoted_body:
  assumes "rest = [] \<or> hd rest \<noteq> 34"
  shows "inQuotes st \<Longrightarrow>
    parseLoop D (doubleQuotes s @ 34 # rest) st
      = parseLoop D rest (st\<lparr>field := field st @ s, inQuotes := False\<rparr>)"
proof (induction s arbitrary: st)
  case Nil
  then show ?case using assms by (cases rest) (simp_all add: doubleQuotes_def)
next
  case (Cons c s)
  have dq: "doubleQuotes (c # s) = (if c = 34 then [34, 34] else [c]) @ doubleQuotes s"
    by (simp add: doubleQuotes_def)
  show ?case
  proof (cases "c = 34")
    case True
    have "parseLoop D (doubleQuotes (c # s) @ 34 # rest) st
        = parseLoop D (doubleQuotes s @ 34 # rest) (st\<lparr>field := field st @ [34]\<rparr>)"
      unfolding dq using Cons.prems True by simp
    also have "\<dots> = parseLoop D rest (st\<lparr>field := field st @ c # s, inQuotes := False\<rparr>)"
      using Cons.prems True by (subst Cons.IH) simp_all
    finally show ?thesis .
  next
    case False
    have "parseLoop D (doubleQuotes (c # s) @ 34 # rest) st
        = parseLoop D (doubleQuotes s @ 34 # rest) (st\<lparr>field := field st @ [c]\<rparr>)"
      unfolding dq using Cons.prems False by simp
    also have "\<dots> = parseLoop D rest (st\<lparr>field := field st @ c # s, inQuotes := False\<rparr>)"
      using Cons.prems by (subst Cons.IH) simp_all
    finally show ?thesis .
  qed
qed

lemma parseLoop_quoteField:
  assumes "\<not> inQuotes st" and "rest = [] \<or> hd rest \<noteq> 34"
  shows "parseLoop D (quoteField s @ rest) st = parseLoop D rest (st\<lparr>field := field st @ s\<rparr>)"
proof -
  have "parseLoop D (quoteField s @ rest) st
      = parseLoop D (doubleQuotes s @ 34 # rest) (st\<lparr>inQuotes := True\<rparr>)"
    using assms(1) by (simp add: quoteField_def)
  also have "\<dots> = parseLoop D rest (st\<lparr>inQuotes := True, field := field st @ s, inQuotes := False\<rparr>)"
    using parseLoop_quoted_body [OF assms(2), of "st\<lparr>inQuotes := True\<rparr>" D s] by simp
  also have "st\<lparr>inQuotes := True, field := field st @ s, inQuotes := False\<rparr> = st\<lparr>field := field st @ s\<rparr>"
    using assms(1) by simp
  finally show ?thesis .
qed

lemma parseLoop_quoteField_end:
  assumes "\<not> inQuotes st"
  shows "parseLoop D (quoteField s) st = st\<lparr>field := field st @ s\<rparr>"
  using parseLoop_quoteField [OF assms, of "[]" D s] by simp

lemma parseRows_two_fields:
  "parseRows 44 (js ''x,'' @ quoteField s) = [[js ''x'', s]]"
  by (simp add: parseRows_def js_def parseLoop_quoteField_end pushField_def pushRow_def)

lemma parseRows_one_field:
  "parseRows D (quoteField s) = (if s = [] then [] else [[s]])"
  by (simp add: parseRows_def parseLoop_quoteField_end pushField_def pushRow_def)

lemma parseCSV_quoted_cell:
  "parseCSV (js ''k,v'' @ [10] @ js ''x,'' @ quoteField s)
     = [[(js ''k'', Some (js ''x'')), (js ''v'', Some s)]]"
proof -
  have raw: "stripBOM (js ''k,v'' @ [10] @ js ''x,'' @ quoteField s) = js ''k,v'' @ [10] @ js ''x,'' @ quoteField s"
    by (simp add: stripBOM_def js_def)
  have fl: "firstLineOf (js ''k,v'' @ [10] @ js ''x,'' @ quoteField s) = js ''k,v''"
    by (simp add: js_def)
  have dl: "detectDelimiter (js ''k,v'') = 44"
    by (simp add: detectDelimiter_def stripBOM_def countOf_def js_def)
  have rows: "parseRows 44 (js ''k,v'' @ [10] @ js ''x,'' @ quoteField s) = [[js ''k'', js ''v''], [js ''x'', s]]"
    by (simp add: parseRows_def js_def parseLoop_quoteField_end pushField_def pushRow_def)
  show ?thesis
    unfolding parseCSV_def raw fl dl rows Let_def
    by (simp add: trim_def isWhiteSpace_def js_def objSet_def mapSetIfAbsent_def mapUpdate_def
        mapHas_def objectValues_def objectKeys_def isArrayIndex_def isDigit_def sortBy_def
        objGet_def orEmpty_def)
qed

text \<open>
  C9. The scanning loop inverts the quoting that wraps a field in double quotes and
  doubles every embedded double quote: outside quotes, and before anything but another
  double quote, reading \<open>quoteField s\<close> appends exactly \<open>s\<close> to the current field,
  whatever code units \<open>s\<close> holds (delimiters, line breaks and quotes included). So a
  quoted cell of a data row comes back from \<open>parseCSV\<close> as the original string, and the
  single field \<^verbatim>\<open>"a,""b"",c"\<close> parses to \<^verbatim>\<open>a,"b",c\<close>. (An input that is nothing but
  the quoted empty string has no row: the last row is not pushed when it is one empty field.)
\<close>

theorem quoted_field_round_trip:
  "(\<forall>st rest D. \<not> inQuotes st \<and> (rest = [] \<or> hd rest \<noteq> 34) \<longrightarrow>
       parseLoop D (quoteField s @ rest) st = parseLoop D rest (st\<lparr>field := field st @ s\<rparr>))
   \<and> parseRows D' (quoteField s) = (if s = [] then [] else [[s]])
   \<and> parseRows 44 (js ''x,'' @ quoteField s) = [[js ''x'', s]]
   \<and> parseCSV (js ''k,v'' @ [10] @ js ''x,'' @ quoteField s)
        = [[(js ''k'', Some (js ''x'')), (js ''v'', Some s)]]
   \<and> quoteField (js ''a,\"b\",c'') = js ''\"a,\"\"b\"\",c\"''
   \<and> parseRows 44 (js ''\"a,\"\"b\"\",c\"'') = [[js ''a,\"b\",c'']]"
proof -
  have q: "quoteField (js ''a,\"b\",c'') = js ''\"a,\"\"b\"\",c\"''"
    by (simp add: quoteField_def doubleQuotes_def js_def)
  have "parseRows 44 (quoteField (js ''a,\"b\",c'')) = [[js ''a,\"b\",c'']]"
    by (simp add: parseRows_one_field) (simp add: js_def)
  then have "parseRows 44 (js ''\"a,\"\"b\"\",c\"'') = [[js ''a,\"b\",c'']]"
    by (simp only: q)
  moreover have "\<forall>st rest D. \<not> inQuotes st \<and> (rest = [] \<or> hd rest \<noteq> 34) \<longrightarrow>
       parseLoop D (quoteField s @ rest) st = parseLoop D rest (st\<lparr>field := field st @ s\<rparr>)"
    using parseLoop_quoteField by blast
  ultimately show ?thesis
    using q by (simp only: parseRows_one_field parseRows_two_fields parseCSV_quoted_cell simp_thms)
qed

theorem quoted_field_round_trip_witness:
  "\<not> inQuotes \<lparr>field = js ''p'', row = [], rows = [], inQuotes = False\<rparr>
   \<and> hd (js '',z'') \<noteq> 34
   \<and> parseLoop 44 (js ''\"a,\"\"b\"\",c\"'' @ js '',z'')
        \<lparr>field = js ''p'', row = [], rows = [], inQuotes = False\<rparr>
       = \<lparr>field = js ''z'', row = [js ''pa,\"b\",c''], rows = [], inQuotes = False\<rparr>
   \<and> parseCSV (js ''k,v'' @ [10] @ js ''x,'' @ js ''\"a,\"\"b\"\",c\"'')
        = [[(js ''k'', Some (js ''x'')), (js ''v'', Some (js ''a,\"b\",c''))]]"
proof -
  have a: "\<not> inQuotes \<lparr>field = js ''p'', row = [], rows = [], inQuotes = False\<rparr>" by simp
  have b: "hd (js '',z'') \<noteq> 34" by (simp add: js_def)
  have q: "quoteField (js ''a,\"b\",c'') = js ''\"a,\"\"b\"\",c\"''"
    by (simp add: quoteField_def doubleQuotes_def js_def)
  have c: "parseLoop 44 (js '',z'') (\<lparr>field = js ''p'', row = [], rows = [], inQuotes = False\<rparr>
              \<lparr>field := js ''p'' @ js ''a,\"b\",c''\<rparr>)
       = \<lparr>field = js ''z'', row = [js ''pa,\"b\",c''], rows = [], inQuotes = False\<rparr>"
    by (simp add: js_def pushField_def)
  from quoted_field_round_trip [of "js ''a,\"b\",c''" 44] a b c
  show ?thesis unfolding q by simp
qed
section \<open>The sample rows, end to end\<close>


lemma sample_parsed:
  "parseCSV sampleCSV =
     [[(js ''user_id'', Some (js ''u1'')), (js ''month'', Some (js ''2025-09'')),
       (js ''text'', Some (js ''Ik reken hierop, maar dit voelt niet veilig.''))],
      [(js ''user_id'', Some (js ''u1'')), (js ''month'', Some (js ''2025-10'')),
       (js ''text'', Some (js ''Nog steeds onbetrouwbaar. Klaar mee.''))]]"
  by code_simp

lemma sample_normalized:
  "normalizeRows h
     [[(js ''user_id'', Some (js ''u1'')), (js ''month'', Some (js ''2025-09'')),
       (js ''text'', Some (js ''Ik reken hierop, maar dit voelt niet veilig.''))],
      [(js ''user_id'', Some (js ''u1'')), (js ''month'', Some (js ''2025-10'')),
       (js ''text'', Some (js ''Nog steeds onbetrouwbaar. Klaar mee.''))]]
   = [\<lparr>user_id = js ''u1'', month = js ''2025-09'', text' = js ''2025-09'', active_next_month = []\<rparr>,
      \<lparr>user_id = js ''u1'', month = js ''2025-10'', text' = js ''2025-10'', active_next_month = []\<rparr>]"
  by code_simp

lemma sample_merged:
  "map snd (mergeRows
     [\<lparr>user_id = js ''u1'', month = js ''2025-09'', text' = js ''2025-09'', active_next_month = []\<rparr>,
      \<lparr>user_id = js ''u1'', month = js ''2025-10'', text' = js ''2025-10'', active_next_month = []\<rparr>])
   = [\<lparr>user_id = js ''u1'', month = js ''2025-09'', text' = js ''2025-09'', active_next_month = []\<rparr>,
      \<lparr>user_id = js ''u1'', month = js ''2025-10'', text' = js ''2025-10'', active_next_month = []\<rparr>]"
  by code_simp

lemma sample_classified_order1:
  "map (\<lambda>r. (user_id r, month r, text' r, dominant_persona r, active_next_month r))
     (classified DEFAULT_KEYWORDS
       [\<lparr>user_id = js ''u1'', month = js ''2025-09'', text' = js ''2025-09'', active_next_month = []\<rparr>,
        \<lparr>user_id = js ''u1'', month = js ''2025-10'', text' = js ''2025-10'', active_next_month = []\<rparr>])
   = [(js ''u1'', js ''2025-09'', js ''2025-09'', None, True),
      (js ''u1'', js ''2025-10'', js ''2025-10'', None, False)]"
  by code_simp

lemma sample_classified_order2:
  "map (\<lambda>r. (user_id r, month r, text' r, dominant_persona r, active_next_month r))
     (classified DEFAULT_KEYWORDS
       [\<lparr>user_id = js ''u1'', month = js ''2025-10'', text' = js ''2025-10'', active_next_month = []\<rparr>,
        \<lparr>user_id = js ''u1'', month = js ''2025-09'', text' = js ''2025-09'', active_next_month = []\<rparr>])
   = [(js ''u1'', js ''2025-10'', js ''2025-10'', None, False),
      (js ''u1'', js ''2025-09'', js ''2025-09'', None, True)]"
  by code_simp

lemma sample_intended:
  "fst (classifyDominantPersona (js ''Ik reken hierop, maar dit voelt niet veilig.'') DEFAULT_KEYWORDS)
     = Some (js ''trust_erosion'')"
  by code_simp

lemma sample_months_differ: "js ''2025-09'' \<noteq> js ''2025-10''"
  by (simp add: js_def)

text \<open>
  C1. On the two-row sample (header \<open>user_id,month,text\<close>, no \<open>active_next_month\<close>
  column, no row for 2025-11) the normalizer takes the text of a row from its second
  column: the exact survey header is absent, no column name contains \<open>beschrijf\<close> or
  \<open>suggestie\<close>, and a row with two or more columns never reaches the \<open>text\<close>,
  \<open>message\<close>, \<open>body\<close> fallback. The second column is \<open>month\<close>, so the text of u1's
  2025-09 record is \<open>2025-09\<close>, no keyword matches it and the dominant persona is
  \<open>null\<close>, for every host; \<open>active_next_month\<close> resolves to true. The classifier
  itself answers trust_erosion on the text of the third column.
\<close>

theorem sample_text_is_second_column:
  "[(text' r, dominant_persona r, active_next_month r).
      r \<leftarrow> classifiedOfCSV h DEFAULT_KEYWORDS sampleCSV,
      user_id r = js ''u1'' \<and> month r = js ''2025-09'']
     = [(js ''2025-09'', None, True)]
   \<and> fst (classifyDominantPersona (js ''Ik reken hierop, maar dit voelt niet veilig.'') DEFAULT_KEYWORDS)
     = Some (js ''trust_erosion'')"
proof -
  let ?r1 = "\<lparr>user_id = js ''u1'', month = js ''2025-09'', text' = js ''2025-09'', active_next_month = ([]::jsstring)\<rparr>"
  let ?r2 = "\<lparr>user_id = js ''u1'', month = js ''2025-10'', text' = js ''2025-10'', active_next_month = ([]::jsstring)\<rparr>"
  let ?proj = "\<lambda>r::classified_row. (user_id r, month r, text' r, dominant_persona r, active_next_month r)"
  have umr: "userMonthRows h (parseCSV sampleCSV) = [?r1, ?r2] \<or> userMonthRows h (parseCSV sampleCSV) = [?r2, ?r1]"
    unfolding userMonthRows_def sample_parsed sample_normalized sample_merged
    by (simp add: sortBy_def sample_months_differ)
  have sel: "[(text' r, dominant_persona r, active_next_month r). r \<leftarrow> cls, user_id r = js ''u1'' \<and> month r = js ''2025-09'']
      = [(t, d, a). (u, m, t, d, a) \<leftarrow> map ?proj cls, u = js ''u1'' \<and> m = js ''2025-09'']" for cls
    by (induction cls) auto
  from umr show ?thesis
  proof
    assume "userMonthRows h (parseCSV sampleCSV) = [?r1, ?r2]"
    then show ?thesis
      unfolding classifiedOfCSV_def sel by (simp add: sample_classified_order1 sample_intended sample_months_differ [symmetric])
  next
    assume "userMonthRows h (parseCSV sampleCSV) = [?r2, ?r1]"
    then show ?thesis
      unfolding classifiedOfCSV_def sel by (simp add: sample_classified_order2 sample_intended sample_months_differ [symmetric])
  qed
qed

section \<open>Tables, sorting and the composite keys\<close>

subsection \<open>Insertion-ordered tables\<close>

lemma map_fst_mapUpdate [simp]: "map fst (mapUpdate k f mp) = map fst mp"
  by (induction mp) (auto simp: mapUpdate_def)

lemma map_fst_mapSetIfAbsent:
  "map fst (mapSetIfAbsent k v mp) = (if k \<in> set (map fst mp) then map fst mp else map fst mp @ [k])"
  by (simp add: mapSetIfAbsent_def mapHas_def)

lemma set_mapSetIfAbsent:
  "set (mapSetIfAbsent k v mp) = (if k \<in> fst ` set mp then set mp else insert (k, v) (set mp))"
  by (simp add: mapSetIfAbsent_def mapHas_def)

lemma in_mapUpdate:
  "(k', v') \<in> set (mapUpdate k f mp) \<longleftrightarrow>
     (\<exists>v. (k', v) \<in> set mp \<and> v' = (if k' = k then f v else v))"
  by (induction mp) (force simp: mapUpdate_def split: if_splits)+

lemma distinct_mapSetIfAbsent:
  "distinct (map fst mp) \<Longrightarrow> distinct (map fst (mapSetIfAbsent k v mp))"
  by (simp add: map_fst_mapSetIfAbsent)

subsection \<open>The stable sort\<close>

lemma set_insertBy [simp]: "set (insertBy cmp x xs) = insert x (set xs)"
  by (induction xs) auto

lemma length_insertBy [simp]: "length (insertBy cmp x xs) = Suc (length xs)"
  by (induction xs) auto

lemma sortBy_Nil [simp]: "sortBy cmp [] = []"
  by (simp add: sortBy_def)

lemma sortBy_Cons [simp]: "sortBy cmp (x # xs) = insertBy cmp x (sortBy cmp xs)"
  by (simp add: sortBy_def)

lemma set_sortBy [simp]: "set (sortBy cmp xs) = set xs"
  by (induction xs) auto

lemma length_sortBy [simp]: "length (sortBy cmp xs) = length xs"
  by (induction xs) auto

lemma distinct_map_insertBy:
  "distinct (map f (insertBy cmp x xs)) \<longleftrightarrow> f x \<notin> f ` set xs \<and> distinct (map f xs)"
  by (induction xs) auto

lemma distinct_map_sortBy: "distinct (map f (sortBy cmp xs)) \<longleftrightarrow> distinct (map f xs)"
  by (induction xs) (auto simp: distinct_map_insertBy)

subsection \<open>The characters of a month string\<close>

lemma showNat_digits: "c \<in> set (showNat n) \<Longrightarrow> isDigit c"
proof (induction n arbitrary: c rule: showNat.induct)
  case (1 n)
  show ?case
  proof (cases "n < 10")
    case True
    with "1.prems" show ?thesis by (simp add: showNat.simps [of n] isDigit_def)
  next
    case False
    with "1.prems" "1.IH" show ?thesis
      by (auto simp: showNat.simps [of n] isDigit_def)
  qed
qed

lemma showInt_chars: "c \<in> set (showInt i) \<Longrightarrow> isDigit c \<or> c = 45"
  by (auto simp: showInt_def dest: showNat_digits split: if_splits)

lemma padStart2_chars: "c \<in> set (padStart2 s) \<Longrightarrow> c \<in> set s \<or> c = 48"
  by (auto simp: padStart2_def)

lemma isDigit_48 [simp]: "isDigit 48"
  by (simp add: isDigit_def)

lemma isDigit_not_95: "isDigit c \<Longrightarrow> c \<noteq> 95"
  by (auto simp: isDigit_def)

lemma matchYM_shape:
  "matchYM t \<Longrightarrow> \<exists>a b c d f g rest. t = a # b # c # d # 45 # f # g # rest
      \<and> isDigit a \<and> isDigit b \<and> isDigit c \<and> isDigit d \<and> isDigit f \<and> isDigit g"
  by (cases t rule: matchYM.cases) auto

lemma findYM_chars:
  "findYM t = Some (m1, m2) \<Longrightarrow> (\<forall>c\<in>set m1. isDigit c) \<and> (\<forall>c\<in>set m2. isDigit c)"
proof (induction t)
  case Nil
  then show ?case by simp
next
  case (Cons x t)
  show ?case
  proof (cases "matchYM (x # t)")
    case True
    from matchYM_shape [OF True] Cons.prems True show ?thesis by auto
  next
    case False
    with Cons show ?thesis by simp
  qed
qed

lemma monthFromDateString_chars:
  assumes "c \<in> set (monthFromDateString h s)"
  shows "isDigit c \<or> c = 45"
proof -
  let ?t = "trim (orEmpty s)"
  show ?thesis
  proof (cases "?t = []")
    case True
    with assms show ?thesis by (simp add: monthFromDateString_def)
  next
    case ne: False
    show ?thesis
    proof (cases "length ?t = 7 \<and> matchYM ?t")
      case True
      with matchYM_shape [of ?t] assms ne show ?thesis
        by (auto simp: monthFromDateString_def Let_def)
    next
      case nm: False
      show ?thesis
      proof (cases "findYM ?t")
        case (Some m)
        obtain m1 m2 where m: "m = (m1, m2)" by (cases m)
        from findYM_chars [of ?t m1 m2] Some m assms ne nm show ?thesis
          by (auto simp: monthFromDateString_def Let_def)
      next
        case None
        with assms ne nm show ?thesis
          by (auto simp: monthFromDateString_def Let_def split: option.splits
              dest!: showInt_chars padStart2_chars showNat_digits)
      qed
    qed
  qed
qed

lemma monthFromDateString_no_underscore: "95 \<notin> set (monthFromDateString h s)"
  using monthFromDateString_chars [of 95 h s] by (auto simp: isDigit_def)

lemma nextMonth_no_underscore: "95 \<notin> set (nextMonth m)"
proof -
  have "c \<in> set (nextMonth m) \<Longrightarrow> isDigit c \<or> c = 45" for c
    by (auto simp: nextMonth_def Let_def split: list.splits option.splits if_splits
        dest!: padStart2_chars showInt_chars)
  from this [of 95] show ?thesis by (auto simp: isDigit_def)
qed

subsection \<open>The composite key\<close>

lemma sep_key_inj:
  fixes u m u' m' :: jsstring
  assumes "95 \<notin> set m" and "95 \<notin> set m'" and "u @ [95, 95] @ m = u' @ [95, 95] @ m'"
  shows "u = u' \<and> m = m'"
proof -
  have tw: "takeWhile (\<lambda>c. c \<noteq> 95) (rev x @ [95, 95] @ rev y) = rev x" if "95 \<notin> set x" for x y :: jsstring
    using that by (auto simp: takeWhile_tail)
  have "rev (u @ [95, 95] @ m) = rev (u' @ [95, 95] @ m')" using assms(3) by simp
  then have "rev m @ [95, 95] @ rev u = rev m' @ [95, 95] @ rev u'" by simp
  then have "takeWhile (\<lambda>c. c \<noteq> 95) (rev m @ [95, 95] @ rev u)
      = takeWhile (\<lambda>c. c \<noteq> 95) (rev m' @ [95, 95] @ rev u')" by simp
  then have "rev m = rev m'" using tw [OF assms(1), of u] tw [OF assms(2), of u'] by simp
  then have "m = m'" by simp
  with assms(3) show ?thesis by simp
qed

lemma js_sep: "js ''__'' = [95, 95]"
  by (simp add: js_def)

lemma umKey_inj:
  "95 \<notin> set m \<Longrightarrow> 95 \<notin> set m' \<Longrightarrow> umKey u m = umKey u' m' \<Longrightarrow> u = u' \<and> m = m'"
  unfolding umKey_def js_sep by (rule sep_key_inj)
section \<open>The merge loop\<close>

lemma accText_Nil [simp]: "accText [] t = t"
  by (simp add: accText_def)

lemma foldl_accText_nonempty:
  "acc \<noteq> [] \<Longrightarrow> foldl accText acc ts = acc @ concat (map (\<lambda>x. 10 # x) ts)"
  by (induction ts arbitrary: acc) (auto simp: accText_def)

lemma foldl_accText: "foldl accText [] ts = joinLines (dropWhile (\<lambda>t. t = []) ts)"
proof (induction ts)
  case Nil
  then show ?case by (simp add: joinLines_def)
next
  case (Cons t ts)
  show ?case
  proof (cases "t = []")
    case True
    with Cons show ?thesis by simp
  next
    case False
    then show ?thesis by (simp add: joinLines_def foldl_accText_nonempty)
  qed
qed

lemma mergeRows_snoc: "mergeRows (rws @ [r]) = mergeStep (mergeRows rws) r"
  by (simp add: mergeRows_def)

lemma mergeInv_step:
  assumes inv: "mergeInv rws mp"
  shows "mergeInv (rws @ [r]) (mergeStep mp r)"
proof -
  let ?k = "rowKey r"
  let ?new = "\<lparr>user_id = user_id r, month = month r, text' = [], active_next_month = active_next_month r\<rparr>"
  define upd :: "jsstring um_row \<Rightarrow> jsstring um_row" where
    "upd = (\<lambda>cur. (let cur1 = cur\<lparr>text' := (if text' cur \<noteq> [] then text' cur @ [10] else []) @ text' r\<rparr>
                    in if active_next_month r \<noteq> [] then cur1\<lparr>active_next_month := active_next_month r\<rparr>
                       else cur1))"
  let ?mp1 = "mapSetIfAbsent ?k ?new mp"
  have step: "mergeStep mp r = mapUpdate ?k upd ?mp1"
    by (simp add: mergeStep_def rowKey_def Let_def upd_def)
  have upd_fields: "user_id (upd c) = user_id c" "month (upd c) = month c"
      "text' (upd c) = accText (text' c) (text' r)" for c
    by (simp_all add: upd_def Let_def accText_def)
  from inv have d: "distinct (map fst mp)" and ks: "set (map fst mp) = rowKey ` set rws"
    and ent: "\<And>k cur. (k, cur) \<in> set mp \<Longrightarrow>
           (\<exists>r0 \<in> set rws. rowKey r0 = k \<and> user_id cur = user_id r0 \<and> month cur = month r0)
           \<and> text' cur = foldl accText [] (map text' (filter (\<lambda>r. rowKey r = k) rws))"
    by (auto simp: mergeInv_def)
  have d1: "distinct (map fst (mergeStep mp r))"
    unfolding step using d by (simp add: distinct_mapSetIfAbsent)
  have ks1: "set (map fst (mergeStep mp r)) = rowKey ` set (rws @ [r])"
    unfolding step using ks by (auto simp: map_fst_mapSetIfAbsent)
  have ent1: "(\<exists>r0 \<in> set (rws @ [r]). rowKey r0 = k \<and> user_id cur' = user_id r0 \<and> month cur' = month r0)
           \<and> text' cur' = foldl accText [] (map text' (filter (\<lambda>r. rowKey r = k) (rws @ [r])))"
    if mem: "(k, cur') \<in> set (mergeStep mp r)" for k cur'
  proof -
    from mem obtain cur where cur: "(k, cur) \<in> set ?mp1" and cur': "cur' = (if k = ?k then upd cur else cur)"
      unfolding step in_mapUpdate by blast
    show ?thesis
    proof (cases "(k, cur) \<in> set mp")
      case True
      note e = ent [OF True]
      show ?thesis
      proof (cases "k = ?k")
        case True
        with e cur' show ?thesis by (auto simp: upd_fields)
      next
        case False
        with e cur' show ?thesis by auto
      qed
    next
      case False
      with cur have new: "k = ?k" "cur = ?new" and absent: "?k \<notin> fst ` set mp"
        by (auto simp: set_mapSetIfAbsent split: if_splits)
      from absent ks have "rowKey r \<notin> rowKey ` set rws" by simp
      then have "filter (\<lambda>r'. rowKey r' = ?k) rws = []"
        by (auto simp: filter_empty_conv image_iff)
      with new cur' show ?thesis by (auto simp: upd_fields accText_def)
    qed
  qed
  show ?thesis
    unfolding mergeInv_def using d1 ks1 ent1 by blast
qed

lemma mergeInv_mergeRows: "mergeInv rws (mergeRows rws)"
proof (induction rws rule: rev_induct)
  case Nil
  then show ?case by (simp add: mergeInv_def mergeRows_def)
next
  case (snoc r rws)
  then show ?case by (simp add: mergeRows_snoc mergeInv_step)
qed

lemma set_map_filter: "set (List.map_filter f xs) = {y. \<exists>x\<in>set xs. f x = Some y}"
  by (induction xs) (auto simp: List.map_filter_simps split: option.splits)

lemma rowKey_eq_iff:
  assumes "95 \<notin> set (month r)" and "95 \<notin> set (month r')"
  shows "rowKey r = rowKey r' \<longleftrightarrow> user_id r = user_id r' \<and> month r = month r'"
proof
  assume "rowKey r = rowKey r'"
  then have "umKey (user_id r) (month r) = umKey (user_id r') (month r')"
    by (simp add: rowKey_def)
  from umKey_inj [OF assms this] show "user_id r = user_id r' \<and> month r = month r'" .
next
  assume "user_id r = user_id r' \<and> month r = month r'"
  then show "rowKey r = rowKey r'" by (simp add: rowKey_def)
qed

lemma normalizeRow_month:
  assumes "normalizeRow h hm obj = Some r"
  shows "95 \<notin> set (month r) \<and> month r \<noteq> [] \<and> user_id r \<noteq> []"
proof -
  from assms obtain s where "month r = monthFromDateString h s" "month r \<noteq> []" "user_id r \<noteq> []"
    unfolding normalizeRow_def Let_def by (cases hm) (auto split: if_splits)
  then show ?thesis by (simp add: monthFromDateString_no_underscore)
qed

lemma normalizeRows_month:
  "r \<in> set (normalizeRows h rawRows) \<Longrightarrow> 95 \<notin> set (month r) \<and> month r \<noteq> [] \<and> user_id r \<noteq> []"
  unfolding normalizeRows_def Let_def set_map_filter
  using normalizeRow_month by auto

lemma distinct_map_comp: "distinct (map (\<lambda>x. g (f x)) xs) \<Longrightarrow> distinct (map f xs)"
  by (induction xs) auto

text \<open>What the merge makes of the normalized rows, record by record.\<close>

lemma merged_record:
  assumes "rec \<in> snd ` set (mergeRows rws)" and nu: "\<forall>r\<in>set rws. 95 \<notin> set (month r)"
  shows "95 \<notin> set (month rec)"
    and "\<exists>r0\<in>set rws. user_id r0 = user_id rec \<and> month r0 = month rec"
    and "text' rec = foldl accText [] (map text' (contributing rec rws))"
proof -
  from assms(1) obtain k where k: "(k, rec) \<in> set (mergeRows rws)" by auto
  from mergeInv_mergeRows [of rws] k obtain r0 where r0: "r0 \<in> set rws" "rowKey r0 = k"
      "user_id rec = user_id r0" "month rec = month r0"
    and tx: "text' rec = foldl accText [] (map text' (filter (\<lambda>r. rowKey r = k) rws))"
    unfolding mergeInv_def by fastforce
  from r0 nu show m: "95 \<notin> set (month rec)" by simp
  from r0 show "\<exists>r0\<in>set rws. user_id r0 = user_id rec \<and> month r0 = month rec" by auto
  have kk: "k = rowKey rec" using r0 by (simp add: rowKey_def)
  have "filter (\<lambda>r. rowKey r = k) rws = contributing rec rws"
    unfolding contributing_def kk
    by (rule filter_cong) (use nu m in \<open>auto simp: rowKey_eq_iff\<close>)
  with tx show "text' rec = foldl accText [] (map text' (contributing rec rws))" by simp
qed

lemma merged_distinct:
  "distinct (map (\<lambda>r. (user_id r, month r)) (map snd (mergeRows rws)))"
proof -
  from mergeInv_mergeRows [of rws] have d: "distinct (map fst (mergeRows rws))"
    and e: "\<forall>(k, cur)\<in>set (mergeRows rws). k = rowKey cur"
    unfolding mergeInv_def by (auto simp: rowKey_def)
  from e have "map fst (mergeRows rws) = map (\<lambda>x. rowKey (snd x)) (mergeRows rws)"
    by (induction "mergeRows rws") auto
  with d have "distinct (map (\<lambda>x. rowKey (snd x)) (mergeRows rws))" by simp
  then have "distinct (map (\<lambda>x. (\<lambda>(u, m). umKey u m) (user_id (snd x), month (snd x))) (mergeRows rws))"
    by (simp add: rowKey_def)
  then have "distinct (map (\<lambda>x. (user_id (snd x), month (snd x))) (mergeRows rws))"
    by (rule distinct_map_comp)
  then show ?thesis by (simp add: comp_def)
qed

lemma merged_covers:
  "r \<in> set rws \<Longrightarrow> \<exists>rec\<in>snd ` set (mergeRows rws). rowKey rec = rowKey r"
proof -
  assume "r \<in> set rws"
  with mergeInv_mergeRows [of rws] have "rowKey r \<in> set (map fst (mergeRows rws))"
    unfolding mergeInv_def by auto
  then obtain cur where c: "(rowKey r, cur) \<in> set (mergeRows rws)" by auto
  with mergeInv_mergeRows [of rws] have "rowKey cur = rowKey r"
    unfolding mergeInv_def by (fastforce simp: rowKey_def)
  with c show ?thesis by force
qed

lemma userMonthRows_set:
  "rawRows \<noteq> [] \<Longrightarrow> set (userMonthRows h rawRows) = snd ` set (mergeRows (normalizeRows h rawRows))"
  by (simp add: userMonthRows_def)

lemma userMonthRows_distinct:
  "distinct (map (\<lambda>r. (user_id r, month r)) (userMonthRows h rawRows))"
  using merged_distinct [of "normalizeRows h rawRows"]
  by (simp add: userMonthRows_def distinct_map_sortBy)

lemma userMonthRows_empty [simp]: "userMonthRows h [] = []"
  by (simp add: userMonthRows_def)

lemma userMonthRows_month:
  assumes "rec \<in> set (userMonthRows h rawRows)"
  shows "95 \<notin> set (month rec)"
proof (cases "rawRows = []")
  case True
  with assms show ?thesis by simp
next
  case False
  with assms have "rec \<in> snd ` set (mergeRows (normalizeRows h rawRows))"
    by (simp add: userMonthRows_set)
  then show ?thesis
    by (rule merged_record(1)) (simp add: normalizeRows_month)
qed
section \<open>The merged text\<close>

text \<open>
  C2 (as amended). For every record of \<open>userMonthRows\<close> the contributing normalized rows
  (same user and month, in input order) are not empty, and the record's text is the
  newline-join of their texts after the leading empty texts are dropped: the separator is
  written only once the accumulated text is non-empty. When the first contributing text
  is not empty this is the newline-join of all of them, later empty texts included.
\<close>

theorem merged_text_join:
  "\<forall>rec \<in> set (userMonthRows h rawRows).
      contributing rec (normalizeRows h rawRows) \<noteq> []
    \<and> text' rec = joinLines (dropWhile (\<lambda>t. t = [])
                      (map text' (contributing rec (normalizeRows h rawRows))))
    \<and> (text' (hd (contributing rec (normalizeRows h rawRows))) \<noteq> [] \<longrightarrow>
         text' rec = joinLines (map text' (contributing rec (normalizeRows h rawRows))))"
proof
  fix rec
  assume mem: "rec \<in> set (userMonthRows h rawRows)"
  let ?rws = "normalizeRows h rawRows"
  from mem have ne: "rawRows \<noteq> []" by (auto simp: userMonthRows_def)
  with mem have m: "rec \<in> snd ` set (mergeRows ?rws)" by (simp add: userMonthRows_set)
  have nu: "\<forall>r\<in>set ?rws. 95 \<notin> set (month r)" by (simp add: normalizeRows_month)
  from merged_record(2) [OF m nu] have c: "contributing rec ?rws \<noteq> []"
    by (auto simp: contributing_def filter_empty_conv)
  from merged_record(3) [OF m nu]
  have t: "text' rec = joinLines (dropWhile (\<lambda>t. t = []) (map text' (contributing rec ?rws)))"
    by (simp add: foldl_accText)
  have "text' rec = joinLines (map text' (contributing rec ?rws))"
    if "text' (hd (contributing rec ?rws)) \<noteq> []"
  proof -
    from c that have "dropWhile (\<lambda>t. t = []) (map text' (contributing rec ?rws))
        = map text' (contributing rec ?rws)"
      by (cases "contributing rec ?rws") simp_all
    with t show ?thesis by simp
  qed
  with c t show "contributing rec ?rws \<noteq> []
    \<and> text' rec = joinLines (dropWhile (\<lambda>t. t = []) (map text' (contributing rec ?rws)))
    \<and> (text' (hd (contributing rec ?rws)) \<noteq> [] \<longrightarrow>
         text' rec = joinLines (map text' (contributing rec ?rws)))"
    by simp
qed

lemma mergeCSV_rows:
  "normalizeRows plainHost (parseCSV mergeCSV)
     = [\<lparr>user_id = js ''u1'', month = js ''2025-09'', text' = [], active_next_month = []\<rparr>,
        \<lparr>user_id = js ''u1'', month = js ''2025-09'', text' = js ''hello'', active_next_month = []\<rparr>]"
  by code_simp

lemma mergeCSV_merged:
  "userMonthRows plainHost (parseCSV mergeCSV)
     = [\<lparr>user_id = js ''u1'', month = js ''2025-09'', text' = js ''hello'', active_next_month = []\<rparr>]"
  by code_simp

theorem merged_text_join_witness:
  "\<lparr>user_id = js ''u1'', month = js ''2025-09'', text' = js ''hello'', active_next_month = []\<rparr>
      \<in> set (userMonthRows plainHost (parseCSV mergeCSV))
   \<and> map text' (contributing
         \<lparr>user_id = js ''u1'', month = js ''2025-09'', text' = js ''hello'', active_next_month = ([]::jsstring)\<rparr>
         (normalizeRows plainHost (parseCSV mergeCSV))) = [[], js ''hello'']
   \<and> js ''hello'' = joinLines (dropWhile (\<lambda>t. t = []) [[], js ''hello''])"
proof -
  let ?rec = "\<lparr>user_id = js ''u1'', month = js ''2025-09'', text' = js ''hello'', active_next_month = ([]::jsstring)\<rparr>"
  have a: "?rec \<in> set (userMonthRows plainHost (parseCSV mergeCSV))"
    by (simp add: mergeCSV_merged)
  have b: "map text' (contributing ?rec (normalizeRows plainHost (parseCSV mergeCSV))) = [[], js ''hello'']"
    by (simp add: mergeCSV_rows contributing_def)
  from merged_text_join [of plainHost "parseCSV mergeCSV"] a
  have "text' ?rec = joinLines (dropWhile (\<lambda>t. t = [])
          (map text' (contributing ?rec (normalizeRows plainHost (parseCSV mergeCSV)))))"
    by blast
  with a b show ?thesis by simp
qed

theorem merged_text_join_counterexample:
  "map text' (normalizeRows plainHost (parseCSV mergeCSV)) = [[], js ''hello'']
   \<and> map (\<lambda>r. (user_id r, month r)) (normalizeRows plainHost (parseCSV mergeCSV))
       = [(js ''u1'', js ''2025-09''), (js ''u1'', js ''2025-09'')]
   \<and> map (\<lambda>r. (user_id r, month r, text' r)) (userMonthRows plainHost (parseCSV mergeCSV))
       = [(js ''u1'', js ''2025-09'', js ''hello'')]
   \<and> joinLines [[], js ''hello''] = 10 # js ''hello''
   \<and> \<not> (\<forall>rec \<in> set (userMonthRows plainHost (parseCSV mergeCSV)).
          text' rec = joinLines (map text' (contributing rec (normalizeRows plainHost (parseCSV mergeCSV)))))"
  by (simp add: mergeCSV_rows mergeCSV_merged contributing_def joinLines_def)
section \<open>Decimal numerals and the next month\<close>

lemma showNat_nonempty: "showNat n \<noteq> []"
  by (subst showNat.simps) simp

lemma decimalValue_snoc: "decimalValue (s @ [c]) = 10 * decimalValue s + nat (c - 48)"
  by (simp add: decimalValue_def)

lemma decimalValue_showNat: "decimalValue (showNat n) = n"
proof (induction n rule: showNat.induct)
  case (1 n)
  show ?case
  proof (cases "n < 10")
    case True
    then show ?thesis by (simp add: showNat.simps [of n] decimalValue_def)
  next
    case False
    with "1.IH" show ?thesis
      by (simp add: showNat.simps [of n] decimalValue_snoc)
  qed
qed

lemma decimalValue_zeros: "decimalValue (replicate k 48 @ s) = decimalValue s"
proof -
  have "foldl (\<lambda>n c. 10 * n + nat (c - 48)) 0 (replicate k 48) = 0"
    by (induction k) simp_all
  then show ?thesis by (simp add: decimalValue_def)
qed

lemma digit_not_space: "isDigit c \<Longrightarrow> \<not> isWhiteSpace c"
  by (auto simp: isDigit_def isWhiteSpace_def)

lemma parseInt_digits:
  assumes "s \<noteq> []" and "\<forall>c\<in>set s. isDigit c"
  shows "parseInt s = Some (int (decimalValue s))"
proof -
  from assms obtain c cs where s: "s = c # cs" by (cases s) auto
  with assms(2) have c: "isDigit c" by simp
  then have ws: "dropWhile isWhiteSpace s = s" using s by (simp add: digit_not_space)
  from c have sg: "c \<noteq> 45" "c \<noteq> 43" by (auto simp: isDigit_def)
  from assms(2) have tw: "takeWhile isDigit s = s" by simp
  show ?thesis
    unfolding parseInt_def ws Let_def using sg tw assms(1) by (simp add: s)
qed

lemma splitOn_none: "sep \<notin> set s \<Longrightarrow> splitOn sep s = [s]"
  by (induction s) auto

lemma splitOn_first: "sep \<notin> set a \<Longrightarrow> splitOn sep (a @ sep # b) = a # splitOn sep b"
  by (induction a) auto

lemma isDigit_not_45: "isDigit c \<Longrightarrow> c \<noteq> 45"
  by (auto simp: isDigit_def)

lemma pad_digits:
  "\<forall>c\<in>set (padStart4 (showNat n)). isDigit c" "\<forall>c\<in>set (padStart2 (showNat n)). isDigit c"
  by (auto simp: padStart4_def padStart2_def dest: showNat_digits)

lemma pad_nonempty: "padStart4 (showNat n) \<noteq> []" "padStart2 (showNat n) \<noteq> []"
  by (simp_all add: padStart4_def padStart2_def showNat_nonempty)

lemma pad_value:
  "decimalValue (padStart4 (showNat n)) = n" "decimalValue (padStart2 (showNat n)) = n"
  by (simp_all add: padStart4_def padStart2_def decimalValue_zeros decimalValue_showNat)

lemma yyyyMm_parse: "map parseInt (splitOn 45 (yyyyMm y m)) = [Some (int y), Some (int m)]"
proof -
  have a: "45 \<notin> set (padStart4 (showNat y))"
    using pad_digits(1) [of y] isDigit_not_45 by auto
  have b: "45 \<notin> set (padStart2 (showNat m))"
    using pad_digits(2) [of m] isDigit_not_45 by auto
  have "splitOn 45 (yyyyMm y m) = [padStart4 (showNat y), padStart2 (showNat m)]"
    unfolding yyyyMm_def using a b by (simp add: splitOn_first splitOn_none)
  then show ?thesis
    by (simp add: parseInt_digits pad_digits pad_nonempty pad_value)
qed

lemma yyyyMm_inj:
  assumes "yyyyMm y m = yyyyMm y' m'"
  shows "y = y' \<and> m = m'"
proof -
  have "map parseInt (splitOn 45 (yyyyMm y m)) = map parseInt (splitOn 45 (yyyyMm y' m'))"
    by (simp only: assms)
  then show ?thesis unfolding yyyyMm_parse by simp
qed

lemma showInt_nat: "showInt (int n) = showNat n"
  by (simp add: showInt_def)

lemma length_showNat_step: "10 \<le> n \<Longrightarrow> length (showNat n) = Suc (length (showNat (n div 10)))"
  by (subst showNat.simps) simp

lemma length_showNat_ge4:
  assumes "1000 \<le> n"
  shows "4 \<le> length (showNat n)"
proof -
  from assms have a: "10 \<le> n" "10 \<le> n div 10" "10 \<le> n div 10 div 10" by simp_all
  have "Suc 0 \<le> length (showNat (n div 10 div 10 div 10))"
    using showNat_nonempty [of "n div 10 div 10 div 10"]
    by (cases "showNat (n div 10 div 10 div 10)") simp_all
  then show ?thesis
    by (simp add: length_showNat_step [OF a(1)] length_showNat_step [OF a(2)]
        length_showNat_step [OF a(3)])
qed

lemma padStart4_id: "1000 \<le> n \<Longrightarrow> padStart4 (showNat n) = showNat n"
  using length_showNat_ge4 [of n] by (simp add: padStart4_def)

lemma nextMonth_yyyyMm_raw:
  assumes "1 \<le> y" and "1 \<le> m"
  shows "nextMonth (yyyyMm y m)
     = showNat (if m = 12 then y + 1 else y) @ [45] @ padStart2 (showNat (if m = 12 then 1 else m + 1))"
proof -
  have i: "(if int m = 12 then int y + 1 else int y) = int (if m = 12 then y + 1 else y)"
    "(if int m = 12 then 1 else int m + 1) = int (if m = 12 then 1 else m + 1)"
    by simp_all
  have "nextMonth (yyyyMm y m)
      = showInt (if int m = 12 then int y + 1 else int y) @ [45]
          @ padStart2 (showInt (if int m = 12 then 1 else int m + 1))"
    unfolding nextMonth_def yyyyMm_parse using assms by (simp add: Let_def)
  then show ?thesis unfolding i showInt_nat .
qed

lemma nextMonth_calendar:
  assumes "1000 \<le> y" and "1 \<le> m" and "m \<le> 12"
  shows "nextMonth (yyyyMm y m) = yyyyMm (fst (calendarSuccessor (y, m))) (snd (calendarSuccessor (y, m)))"
proof -
  from assms have "1 \<le> y" by simp
  from nextMonth_yyyyMm_raw [OF this assms(2)] assms(1) show ?thesis
    by (simp add: yyyyMm_def calendarSuccessor_def padStart4_id)
qed
section \<open>Resolution of \<open>active_next_month\<close>\<close>

lemma keys_mapUpdate [simp]: "fst ` set (mapUpdate k f mp) = fst ` set mp"
  by (simp only: set_map [symmetric] map_fst_mapUpdate)

lemma keys_mapSetIfAbsent [simp]: "fst ` set (mapSetIfAbsent k v mp) = insert k (fst ` set mp)"
  by (auto simp: set_mapSetIfAbsent)

lemma presence_fold_keys:
  "fst ` set (foldl (\<lambda>mp r. mapUpdate (umKey (user_id r) (month r)) (\<lambda>_. True)
                      (mapSetIfAbsent (umKey (user_id r) (month r)) True mp)) mp0 umr)
     = fst ` set mp0 \<union> rowKey ` set umr"
  by (induction umr arbitrary: mp0) (simp_all add: rowKey_def)

lemma presence_has: "mapHas k (presence umr) \<longleftrightarrow> k \<in> rowKey ` set umr"
  by (simp add: mapHas_def presence_def presence_fold_keys)

lemma classifyRow_fields:
  "user_id (classifyRow keywords pres r) = user_id r"
  "month (classifyRow keywords pres r) = month r"
  "active_next_month (classifyRow keywords pres r) =
     (if active_next_month r \<noteq> []
      then normStr (active_next_month r) \<in> set [js ''1'', js ''true'', js ''yes'', js ''y'']
      else mapHas (umKey (user_id r) (nextMonth (month r))) pres)"
  "dominant_persona (classifyRow keywords pres r) = fst (classifyDominantPersona (text' r) keywords)"
  "flags (classifyRow keywords pres r) = snd (classifyDominantPersona (text' r) keywords)"
  by (simp_all add: classifyRow_def Let_def split_def)

lemma presence_successor:
  assumes "\<forall>r'\<in>set umr. 95 \<notin> set (month r')"
  shows "mapHas (umKey u (nextMonth m)) (presence umr)
     \<longleftrightarrow> (\<exists>r'\<in>set umr. user_id r' = u \<and> month r' = nextMonth m)"
proof
  assume "mapHas (umKey u (nextMonth m)) (presence umr)"
  then obtain r' where r': "r' \<in> set umr" "umKey (user_id r') (month r') = umKey u (nextMonth m)"
    by (auto simp: presence_has rowKey_def)
  from assms r'(1) have "95 \<notin> set (month r')" by simp
  from umKey_inj [OF this nextMonth_no_underscore r'(2)] r'(1)
  show "\<exists>r'\<in>set umr. user_id r' = u \<and> month r' = nextMonth m" by auto
next
  assume "\<exists>r'\<in>set umr. user_id r' = u \<and> month r' = nextMonth m"
  then show "mapHas (umKey u (nextMonth m)) (presence umr)"
    by (force simp: presence_has rowKey_def)
qed

lemma resolved_active:
  assumes "\<forall>r'\<in>set umr. 95 \<notin> set (month r')" and "i < length umr"
  shows "active_next_month (classified keywords umr ! i) =
        (if active_next_month (umr ! i) \<noteq> []
         then normStr (active_next_month (umr ! i)) \<in> {js ''1'', js ''true'', js ''yes'', js ''y''}
         else (\<exists>r'\<in>set umr. user_id r' = user_id (umr ! i) \<and> month r' = nextMonth (month (umr ! i))))"
  using assms(2) by (simp add: classified_def classifyRow_fields presence_successor [OF assms(1)])

text \<open>
  Where the resolver infers from presence as the calendar asks: for every record of
  \<open>userMonthRows\<close> the classified record at the same position keeps the user and the
  month; an explicit raw string decides by its lowercased value; and without one, in a
  month \<open>YYYY-MM\<close> with a year from 1000 to 9999 and a month from 01 to 12, the result is
  whether a record of the same user exists in the calendar-successor month.
\<close>

lemma resolved_from_year_1000:
  fixes h :: host and rawRows :: "jsobj list" and kws :: keywordDict
  defines "umr \<equiv> userMonthRows h rawRows"
  assumes i: "i < length umr"
  shows "user_id (classified kws umr ! i) = user_id (umr ! i)"
    and "month (classified kws umr ! i) = month (umr ! i)"
    and "active_next_month (umr ! i) \<noteq> [] \<Longrightarrow>
          active_next_month (classified kws umr ! i)
            = (normStr (active_next_month (umr ! i)) \<in> {js ''1'', js ''true'', js ''yes'', js ''y''})"
    and "active_next_month (umr ! i) = [] \<Longrightarrow> month (umr ! i) = yyyyMm y m
          \<Longrightarrow> 1000 \<le> y \<Longrightarrow> y \<le> 9999 \<Longrightarrow> 1 \<le> m \<Longrightarrow> m \<le> 12 \<Longrightarrow>
          active_next_month (classified kws umr ! i)
            = (\<exists>r'\<in>set umr. user_id r' = user_id (umr ! i)
                 \<and> month r' = yyyyMm (fst (calendarSuccessor (y, m))) (snd (calendarSuccessor (y, m))))"
proof -
  have nu: "\<forall>r'\<in>set umr. 95 \<notin> set (month r')"
    unfolding umr_def using userMonthRows_month by blast
  note ra = resolved_active [OF nu i, of kws]
  show "user_id (classified kws umr ! i) = user_id (umr ! i)"
    using i by (simp add: classified_def classifyRow_fields)
  show "month (classified kws umr ! i) = month (umr ! i)"
    using i by (simp add: classified_def classifyRow_fields)
  show "active_next_month (classified kws umr ! i)
      = (normStr (active_next_month (umr ! i)) \<in> {js ''1'', js ''true'', js ''yes'', js ''y''})"
    if "active_next_month (umr ! i) \<noteq> []"
    using ra that by simp
  show "active_next_month (classified kws umr ! i)
      = (\<exists>r'\<in>set umr. user_id r' = user_id (umr ! i)
           \<and> month r' = yyyyMm (fst (calendarSuccessor (y, m))) (snd (calendarSuccessor (y, m))))"
    if "active_next_month (umr ! i) = []" "month (umr ! i) = yyyyMm y m"
      "1000 \<le> y" "y \<le> 9999" "1 \<le> m" "m \<le> 12"
    using ra that nextMonth_calendar [of y m] by simp
qed

text \<open>
  C3. The resolver is to answer, for a record without an explicit field, whether a record
  of the same user exists in the calendar-successor month (\<open>YYYY-MM\<close> incremented,
  December rolling over). The code misses this for a year written with leading zeros.
  For the rows \<open>u1, 0999-05\<close> and \<open>u1, 0999-06\<close> the normalizer keeps both month
  strings as they are, and the calendar successor of \<open>0999-05\<close> is \<open>0999-06\<close>, the
  month of the second record. \<open>nextMonth\<close> pads the month to two digits but renders the
  year it parsed without padding, \<open>999-06\<close>; no record has that month, so the record of
  \<open>0999-05\<close> resolves to false although the user is present in the next month.
\<close>

theorem successor_of_padded_year:
  "yyyyMm 999 5 = js ''0999-05'' \<and> yyyyMm 999 6 = js ''0999-06''
   \<and> calendarSuccessor (999, 5) = (999, 6)
   \<and> nextMonth (js ''0999-05'') = js ''999-06''
   \<and> map (\<lambda>r. (user_id r, month r, active_next_month r)) (userMonthRows plainHost (parseCSV succCSV))
       = [(js ''u1'', js ''0999-05'', []), (js ''u1'', js ''0999-06'', [])]
   \<and> map (\<lambda>r. (user_id r, month r, active_next_month r))
         (classified DEFAULT_KEYWORDS (userMonthRows plainHost (parseCSV succCSV)))
       = [(js ''u1'', js ''0999-05'', False), (js ''u1'', js ''0999-06'', False)]"
  by code_simp
section \<open>The aggregation table\<close>

lemma keyFor_inj:
  assumes "95 \<notin> set mon" and "95 \<notin> set mon'" and "keyFor mon p = keyFor mon' p'"
  shows "mon = mon' \<and> p = p'"
proof -
  have tw: "takeWhile (\<lambda>c. c \<noteq> 95) (x @ [95, 95] @ y) = x" if "95 \<notin> set x" for x y :: jsstring
    using that by (induction x) auto
  from assms(3) have e: "mon @ [95, 95] @ p = mon' @ [95, 95] @ p'"
    by (simp add: keyFor_def js_sep)
  then have "takeWhile (\<lambda>c. c \<noteq> 95) (mon @ [95, 95] @ p) = takeWhile (\<lambda>c. c \<noteq> 95) (mon' @ [95, 95] @ p')"
    by (simp only:)
  then have "mon = mon'" using tw [OF assms(1), of p] tw [OF assms(2), of p'] by simp
  with e show ?thesis by simp
qed

lemma set_setAdd [simp]: "set (setAdd x xs) = insert x (set xs)"
  by (auto simp: setAdd_def)

lemma distinct_setAdd [simp]: "distinct (setAdd x xs) = distinct xs"
  by (auto simp: setAdd_def)

lemma foldl_countFor_pairs:
  "foldl (countFor r) agg ps = foldl (\<lambda>agg c. countFor (fst c) agg (snd c)) agg (map (\<lambda>p. (r, p)) ps)"
  by (induction ps arbitrary: agg) simp_all

lemma aggregate_fold_from:
  "foldl (\<lambda>agg r. foldl (countFor r) agg (personasToCount mode r)) agg cls
     = foldl (\<lambda>agg c. countFor (fst c) agg (snd c)) agg (contributions mode cls)"
  by (induction cls arbitrary: agg) (simp_all add: contributions_def foldl_countFor_pairs)

lemma aggregate_contributions:
  "aggregate mode cls = foldl (\<lambda>agg c. countFor (fst c) agg (snd c)) [] (contributions mode cls)"
  by (simp add: aggregate_def aggregate_fold_from)

lemma bucketUsers_snoc:
  "bucketUsers P k (cs @ [c]) =
     (if keyFor (month (fst c)) (snd c) = k \<and> P (fst c) then insert (user_id (fst c)) (bucketUsers P k cs)
      else bucketUsers P k cs)"
  by (simp add: bucketUsers_def)

lemma bucketUsers_empty_key:
  "k \<notin> (\<lambda>c. keyFor (month (fst c)) (snd c)) ` set cs \<Longrightarrow> bucketUsers P k cs = {}"
  by (auto simp: bucketUsers_def filter_empty_conv image_iff)

lemma aggInv_step:
  assumes inv: "aggInv cs agg"
  shows "aggInv (cs @ [(r, p)]) (countFor r agg p)"
proof -
  let ?k = "keyFor (month r) p"
  let ?new = "\<lparr>agg_month = month r, agg_persona = p, agg_users = [], retainedUsers = [], churnedUsers = []\<rparr>"
  define upd :: "bucket \<Rightarrow> bucket" where
    "upd = (\<lambda>a. (let a1 = a\<lparr>agg_users := setAdd (user_id r) (agg_users a)\<rparr>
              in if active_next_month r then a1\<lparr>retainedUsers := setAdd (user_id r) (retainedUsers a1)\<rparr>
                 else a1\<lparr>churnedUsers := setAdd (user_id r) (churnedUsers a1)\<rparr>))"
  let ?agg1 = "mapSetIfAbsent ?k ?new agg"
  have step: "countFor r agg p = mapUpdate ?k upd ?agg1"
    by (simp add: countFor_def ensure_def upd_def)
  have upd_fields: "agg_month (upd a) = agg_month a" "agg_persona (upd a) = agg_persona a"
    "agg_users (upd a) = setAdd (user_id r) (agg_users a)"
    "retainedUsers (upd a) = (if active_next_month r then setAdd (user_id r) (retainedUsers a) else retainedUsers a)"
    "churnedUsers (upd a) = (if active_next_month r then churnedUsers a else setAdd (user_id r) (churnedUsers a))"
    for a
    by (simp_all add: upd_def Let_def)
  from inv have d: "distinct (map fst agg)"
    and ks: "fst ` set agg = (\<lambda>c. keyFor (month (fst c)) (snd c)) ` set cs"
    and ent: "\<And>k a. (k, a) \<in> set agg \<Longrightarrow>
           (\<exists>c \<in> set cs. keyFor (month (fst c)) (snd c) = k
              \<and> agg_month a = month (fst c) \<and> agg_persona a = snd c)
           \<and> distinct (agg_users a) \<and> distinct (retainedUsers a) \<and> distinct (churnedUsers a)
           \<and> set (agg_users a) = bucketUsers (\<lambda>r. True) k cs
           \<and> set (retainedUsers a) = bucketUsers (\<lambda>r. active_next_month r) k cs
           \<and> set (churnedUsers a) = bucketUsers (\<lambda>r. \<not> active_next_month r) k cs"
    unfolding aggInv_def by auto
  have d1: "distinct (map fst (countFor r agg p))"
    unfolding step using d by (simp add: distinct_mapSetIfAbsent)
  have ks1: "fst ` set (countFor r agg p) = (\<lambda>c. keyFor (month (fst c)) (snd c)) ` set (cs @ [(r, p)])"
    unfolding step using ks by simp
  have ent1: "(\<exists>c \<in> set (cs @ [(r, p)]). keyFor (month (fst c)) (snd c) = k
              \<and> agg_month a' = month (fst c) \<and> agg_persona a' = snd c)
           \<and> distinct (agg_users a') \<and> distinct (retainedUsers a') \<and> distinct (churnedUsers a')
           \<and> set (agg_users a') = bucketUsers (\<lambda>r. True) k (cs @ [(r, p)])
           \<and> set (retainedUsers a') = bucketUsers (\<lambda>r. active_next_month r) k (cs @ [(r, p)])
           \<and> set (churnedUsers a') = bucketUsers (\<lambda>r. \<not> active_next_month r) k (cs @ [(r, p)])"
    if mem: "(k, a') \<in> set (countFor r agg p)" for k a'
  proof -
    from mem obtain a where a: "(k, a) \<in> set ?agg1" and a': "a' = (if k = ?k then upd a else a)"
      unfolding step in_mapUpdate by blast
    show ?thesis
    proof (cases "(k, a) \<in> set agg")
      case True
      note e = ent [OF True]
      show ?thesis
      proof (cases "k = ?k")
        case True
        with e a' show ?thesis by (auto simp: upd_fields bucketUsers_snoc)
      next
        case False
        with e a' show ?thesis by (auto simp: bucketUsers_snoc)
      qed
    next
      case False
      with a have new: "k = ?k" "a = ?new" and absent: "?k \<notin> fst ` set agg"
        by (auto simp: set_mapSetIfAbsent split: if_splits)
      from absent ks have "?k \<notin> (\<lambda>c. keyFor (month (fst c)) (snd c)) ` set cs" by simp
      then have "bucketUsers P ?k cs = {}" for P by (rule bucketUsers_empty_key)
      with new a' show ?thesis by (simp add: upd_fields bucketUsers_snoc)
    qed
  qed
  show ?thesis
    unfolding aggInv_def using d1 ks1 ent1 by blast
qed

lemma aggInv_fold: "aggInv cs (foldl (\<lambda>agg c. countFor (fst c) agg (snd c)) [] cs)"
proof (induction cs rule: rev_induct)
  case Nil
  then show ?case by (simp add: aggInv_def)
next
  case (snoc c cs)
  then show ?case using aggInv_step [of cs _ "fst c" "snd c"] by simp
qed

lemma aggInv_aggregate: "aggInv (contributions mode cls) (aggregate mode cls)"
  by (simp add: aggregate_contributions aggInv_fold)
section \<open>Retained, churned and users of a bucket\<close>

lemma bucketUsers_split:
  "bucketUsers (\<lambda>r. active_next_month r) k cs \<union> bucketUsers (\<lambda>r. \<not> active_next_month r) k cs
     = bucketUsers (\<lambda>r. True) k cs"
  by (auto simp: bucketUsers_def)

lemma bucketUsers_disjoint:
  assumes "\<forall>c\<in>set cs. \<forall>c'\<in>set cs.
      keyFor (month (fst c)) (snd c) = keyFor (month (fst c')) (snd c') \<and> user_id (fst c) = user_id (fst c')
      \<longrightarrow> active_next_month (fst c) = active_next_month (fst c')"
  shows "bucketUsers (\<lambda>r. active_next_month r) k cs \<inter> bucketUsers (\<lambda>r. \<not> active_next_month r) k cs = {}"
proof (rule ccontr)
  assume "bucketUsers (\<lambda>r. active_next_month r) k cs \<inter> bucketUsers (\<lambda>r. \<not> active_next_month r) k cs \<noteq> {}"
  then obtain u where "u \<in> bucketUsers (\<lambda>r. active_next_month r) k cs"
    and "u \<in> bucketUsers (\<lambda>r. \<not> active_next_month r) k cs" by auto
  then obtain c c' where "c \<in> set cs" "keyFor (month (fst c)) (snd c) = k" "active_next_month (fst c)"
      "user_id (fst c) = u"
    and "c' \<in> set cs" "keyFor (month (fst c')) (snd c') = k" "\<not> active_next_month (fst c')"
      "user_id (fst c') = u"
    unfolding bucketUsers_def by auto
  with assms show False by metis
qed

lemma bucket_counts:
  assumes inv: "aggInv cs agg" and mem: "(k, a) \<in> set agg"
    and cons: "\<forall>c\<in>set cs. \<forall>c'\<in>set cs.
      keyFor (month (fst c)) (snd c) = keyFor (month (fst c')) (snd c') \<and> user_id (fst c) = user_id (fst c')
      \<longrightarrow> active_next_month (fst c) = active_next_month (fst c')"
  shows "length (retainedUsers a) + length (churnedUsers a) = length (agg_users a)"
    and "0 < length (agg_users a)"
proof -
  from inv mem have d: "distinct (agg_users a)" "distinct (retainedUsers a)" "distinct (churnedUsers a)"
    and s: "set (agg_users a) = bucketUsers (\<lambda>r. True) k cs"
      "set (retainedUsers a) = bucketUsers (\<lambda>r. active_next_month r) k cs"
      "set (churnedUsers a) = bucketUsers (\<lambda>r. \<not> active_next_month r) k cs"
    and ex: "\<exists>c \<in> set cs. keyFor (month (fst c)) (snd c) = k"
    unfolding aggInv_def by fastforce+
  have disj: "set (retainedUsers a) \<inter> set (churnedUsers a) = {}"
    by (simp add: s bucketUsers_disjoint [OF cons])
  have "card (set (retainedUsers a) \<union> set (churnedUsers a))
      = card (set (retainedUsers a)) + card (set (churnedUsers a))"
    by (rule card_Un_disjoint [OF finite_set finite_set disj])
  moreover have "set (retainedUsers a) \<union> set (churnedUsers a) = set (agg_users a)"
    by (simp add: s bucketUsers_split)
  ultimately show "length (retainedUsers a) + length (churnedUsers a) = length (agg_users a)"
    using d by (simp add: distinct_card)
  from ex obtain c where "c \<in> set cs" "keyFor (month (fst c)) (snd c) = k" by auto
  then have "user_id (fst c) \<in> bucketUsers (\<lambda>r. True) k cs"
    by (force simp: bucketUsers_def)
  with s(1) show "0 < length (agg_users a)" by auto
qed

lemma contributions_mem:
  "(r, p) \<in> set (contributions mode cls) \<longleftrightarrow> r \<in> set cls \<and> p \<in> set (personasToCount mode r)"
  by (auto simp: contributions_def)

lemma contributions_consistent:
  assumes d: "distinct (map (\<lambda>r. (user_id r, month r)) cls)"
    and nu: "\<forall>r\<in>set cls. 95 \<notin> set (month r)"
  shows "\<forall>c\<in>set (contributions mode cls). \<forall>c'\<in>set (contributions mode cls).
      keyFor (month (fst c)) (snd c) = keyFor (month (fst c')) (snd c') \<and> user_id (fst c) = user_id (fst c')
      \<longrightarrow> active_next_month (fst c) = active_next_month (fst c')"
proof (intro ballI impI)
  fix c c'
  assume c: "c \<in> set (contributions mode cls)" and c': "c' \<in> set (contributions mode cls)"
    and e: "keyFor (month (fst c)) (snd c) = keyFor (month (fst c')) (snd c') \<and> user_id (fst c) = user_id (fst c')"
  from c c' have m: "fst c \<in> set cls" "fst c' \<in> set cls"
    using contributions_mem [of "fst c" "snd c" mode cls] contributions_mem [of "fst c'" "snd c'" mode cls]
    by simp_all
  with nu have n: "95 \<notin> set (month (fst c))" "95 \<notin> set (month (fst c'))" by simp_all
  from e have k: "keyFor (month (fst c)) (snd c) = keyFor (month (fst c')) (snd c')" by simp
  from keyFor_inj [OF n k] have "month (fst c) = month (fst c')" by simp
  with e have "(user_id (fst c), month (fst c)) = (user_id (fst c'), month (fst c'))" by simp
  with d m have "fst c = fst c'"
    by (simp add: distinct_map inj_on_def)
  then show "active_next_month (fst c) = active_next_month (fst c')" by simp
qed

lemma classified_pairs:
  "map (\<lambda>r. (user_id r, month r)) (classified kws umr) = map (\<lambda>r. (user_id r, month r)) umr"
  by (simp add: classified_def classifyRow_fields comp_def)

lemma classified_months: "month ` set (classified kws umr) = month ` set umr"
  by (simp add: classified_def classifyRow_fields image_image)

text \<open>The counts of every row that the aggregation of pipeline records produces.\<close>

lemma aggRows_counts:
  assumes "b \<in> set (aggRows mode (classified kws (userMonthRows h rawRows)))"
  shows "retained b + churned b = users b" and "0 < users b"
    and "retention b = (if users b = 0 then 0 else of_nat (retained b) / of_nat (users b))"
proof -
  let ?cls = "classified kws (userMonthRows h rawRows)"
  from assms obtain k a where ka: "(k, a) \<in> set (aggregate mode ?cls)" and b: "b = toRow a"
    by (auto simp: aggRows_def)
  have d: "distinct (map (\<lambda>r. (user_id r, month r)) ?cls)"
    by (simp add: classified_pairs userMonthRows_distinct)
  have nu: "\<forall>r\<in>set ?cls. 95 \<notin> set (month r)"
  proof
    fix r assume "r \<in> set ?cls"
    then have "month r \<in> month ` set (userMonthRows h rawRows)"
      using classified_months [of kws "userMonthRows h rawRows"] by blast
    then show "95 \<notin> set (month r)" using userMonthRows_month by auto
  qed
  note bc = bucket_counts [OF aggInv_aggregate ka contributions_consistent [OF d nu]]
  from bc show "retained b + churned b = users b" "0 < users b"
    by (simp_all add: b toRow_def Let_def)
  show "retention b = (if users b = 0 then 0 else of_nat (retained b) / of_nat (users b))"
    by (simp add: b toRow_def Let_def)
qed
section \<open>Grouping by persona, sorting and the deltas\<close>

lemma byPersona_snoc:
  "byPersona (rws @ [r]) =
     mapUpdate (row_persona r) (\<lambda>arr. arr @ [r]) (mapSetIfAbsent (row_persona r) [] (byPersona rws))"
  by (simp add: byPersona_def)

lemma groupInv_step:
  assumes inv: "groupInv rws bp"
  shows "groupInv (rws @ [r])
     (mapUpdate (row_persona r) (\<lambda>arr. arr @ [r]) (mapSetIfAbsent (row_persona r) [] bp))"
proof -
  let ?p = "row_persona r"
  let ?bp1 = "mapSetIfAbsent ?p [] bp"
  let ?bp2 = "mapUpdate ?p (\<lambda>arr. arr @ [r]) ?bp1"
  from inv have d: "distinct (map fst bp)" and ks: "fst ` set bp = row_persona ` set rws"
    and ent: "\<And>p arr. (p, arr) \<in> set bp \<Longrightarrow> arr = filter (\<lambda>r. row_persona r = p) rws"
    unfolding groupInv_def by auto
  have d1: "distinct (map fst ?bp2)" using d by (simp add: distinct_mapSetIfAbsent)
  have ks1: "fst ` set ?bp2 = row_persona ` set (rws @ [r])" using ks by simp
  have ent1: "arr' = filter (\<lambda>r. row_persona r = p) (rws @ [r])" if mem: "(p, arr') \<in> set ?bp2" for p arr'
  proof -
    from mem obtain arr where a: "(p, arr) \<in> set ?bp1" and a': "arr' = (if p = ?p then arr @ [r] else arr)"
      unfolding in_mapUpdate by blast
    show ?thesis
    proof (cases "(p, arr) \<in> set bp")
      case True
      with ent [OF True] a' show ?thesis by auto
    next
      case False
      with a have new: "p = ?p" "arr = []" and absent: "?p \<notin> fst ` set bp"
        by (auto simp: set_mapSetIfAbsent split: if_splits)
      from absent ks have "?p \<notin> row_persona ` set rws" by simp
      then have "filter (\<lambda>r'. row_persona r' = ?p) rws = []"
        by (auto simp: filter_empty_conv image_iff)
      with new a' show ?thesis by simp
    qed
  qed
  show ?thesis unfolding groupInv_def using d1 ks1 ent1 by blast
qed

lemma groupInv_byPersona: "groupInv rws (byPersona rws)"
proof (induction rws rule: rev_induct)
  case Nil
  then show ?case by (simp add: groupInv_def byPersona_def)
next
  case (snoc r rws)
  then show ?case by (simp add: byPersona_snoc groupInv_step)
qed

lemma concat_select_key:
  "distinct (map fst bp) \<Longrightarrow>
     concat (map (\<lambda>(q, arr). if q = p then f arr else []) bp)
       = (case map_of bp p of None \<Rightarrow> [] | Some arr \<Rightarrow> f arr)"
proof (induction bp)
  case Nil
  then show ?case by simp
next
  case (Cons x bp)
  obtain q arr where x: "x = (q, arr)" by (cases x)
  show ?case
  proof (cases "q = p")
    case True
    with Cons.prems x have "map_of bp p = None" by (simp add: map_of_eq_None_iff)
    with Cons x True show ?thesis by simp
  next
    case False
    with Cons x show ?thesis by simp
  qed
qed

lemma momLoop_base: "map baseRow (momLoop prev arr) = arr"
  by (induction arr arbitrary: prev) (simp_all add: baseRow_def)

lemma momLoop_length [simp]: "length (momLoop prev arr) = length arr"
  by (induction arr arbitrary: prev) simp_all

lemma momLoop_persona:
  "o' \<in> set (momLoop prev arr) \<Longrightarrow> row_persona o' \<in> row_persona ` set arr"
  by (induction arr arbitrary: prev) auto

lemma momLoop_hd:
  "arr \<noteq> [] \<Longrightarrow> retention_mom (hd (momLoop None arr)) = None \<and> users_mom (hd (momLoop None arr)) = None"
  by (cases arr) simp_all

lemma momLoop_Suc:
  "Suc i < length arr \<Longrightarrow>
     retention_mom (momLoop prev arr ! Suc i) = Some (retention (arr ! Suc i) - retention (arr ! i))
   \<and> users_mom (momLoop prev arr ! Suc i) = Some (int (users (arr ! Suc i)) - int (users (arr ! i)))"
proof (induction arr arbitrary: prev i)
  case Nil
  then show ?case by simp
next
  case (Cons a arr)
  show ?case
  proof (cases i)
    case 0
    with Cons.prems obtain b rest where "arr = b # rest" by (cases arr) auto
    with 0 show ?thesis by simp
  next
    case (Suc j)
    with Cons.prems have "Suc j < length arr" by simp
    from Cons.IH [OF this, of "Some a"] Suc show ?thesis by simp
  qed
qed

lemma set_insertBy_le:
  "sorted_wrt le xs \<Longrightarrow> (\<And>a b. cmp a b \<le> (0::int) \<longleftrightarrow> le a b)
     \<Longrightarrow> (\<And>a b. le a b \<or> le b a) \<Longrightarrow> (\<And>a b c. le a b \<Longrightarrow> le b c \<Longrightarrow> le a c)
     \<Longrightarrow> sorted_wrt le (insertBy cmp x xs)"
proof (induction xs)
  case Nil
  then show ?case by simp
next
  case (Cons y ys)
  show ?case
  proof (cases "le x y")
    case True
    have "le x z" if "z \<in> set ys" for z
    proof -
      from Cons.prems(1) that have "le y z" by simp
      with True show ?thesis by (rule Cons.prems(4))
    qed
    with True Cons.prems(1,2) show ?thesis by simp
  next
    case False
    with Cons.prems(3) [of x y] have yx: "le y x" by simp
    from Cons.prems(1) have s: "sorted_wrt le ys" and yz: "\<forall>z\<in>set ys. le y z" by simp_all
    have "sorted_wrt le (insertBy cmp x ys)"
      by (rule Cons.IH [OF s Cons.prems(2,3,4)])
    with False yx yz Cons.prems(2) show ?thesis by simp
  qed
qed

lemma sorted_sortBy:
  assumes total: "\<forall>a b. cmp a b \<le> 0 \<or> cmp b a \<le> 0"
    and trans: "\<forall>a b c. cmp a b \<le> 0 \<and> cmp b c \<le> 0 \<longrightarrow> cmp a c \<le> 0"
  shows "sorted_wrt (\<lambda>a b. cmp a b \<le> (0::int)) (sortBy cmp xs)"
proof (induction xs)
  case Nil
  then show ?case by simp
next
  case (Cons x xs)
  have "sorted_wrt (\<lambda>a b. cmp a b \<le> 0) (insertBy cmp x (sortBy cmp xs))"
  proof (rule set_insertBy_le [OF Cons.IH])
    show "cmp a b \<le> 0 \<longleftrightarrow> cmp a b \<le> 0" for a b ..
    show "cmp a b \<le> 0 \<or> cmp b a \<le> 0" for a b using total by blast
    show "cmp a c \<le> 0" if "cmp a b \<le> 0" "cmp b c \<le> 0" for a b c
      using trans that by blast
  qed
  then show ?case by simp
qed

lemma persona_series:
  "filter (\<lambda>a. row_persona a = p) (outRows h mode cls)
     = momLoop None (sortBy (\<lambda>a b. localeCompare h (row_month a) (row_month b))
         (filter (\<lambda>r. row_persona r = p) (aggRows mode cls)))"
proof -
  let ?rws = "aggRows mode cls"
  let ?f = "\<lambda>arr. momLoop None (sortBy (\<lambda>a b. localeCompare h (row_month a) (row_month b)) arr)"
  from groupInv_byPersona [of ?rws] have d: "distinct (map fst (byPersona ?rws))"
    and ks: "fst ` set (byPersona ?rws) = row_persona ` set ?rws"
    and ent: "\<And>q arr. (q, arr) \<in> set (byPersona ?rws) \<Longrightarrow> arr = filter (\<lambda>r. row_persona r = q) ?rws"
    unfolding groupInv_def by auto
  have grp: "filter (\<lambda>a. row_persona a = p) (?f arr) = (if q = p then ?f arr else [])"
    if "(q, arr) \<in> set (byPersona ?rws)" for q arr
  proof -
    from ent [OF that] have "\<forall>r\<in>set arr. row_persona r = q" by auto
    then have "\<forall>a\<in>set (?f arr). row_persona a = q"
      using momLoop_persona [of _ None "sortBy (\<lambda>a b. localeCompare h (row_month a) (row_month b)) arr"]
      by auto
    then show ?thesis by (auto simp: filter_empty_conv filter_id_conv)
  qed
  have "filter (\<lambda>a. row_persona a = p) (outRows h mode cls)
      = concat (map (\<lambda>(q, arr). filter (\<lambda>a. row_persona a = p) (?f arr)) (byPersona ?rws))"
    by (simp add: outRows_def filter_concat comp_def split_def)
  also have "\<dots> = concat (map (\<lambda>(q, arr). if q = p then ?f arr else []) (byPersona ?rws))"
    by (rule arg_cong [where f = concat], rule map_cong) (auto simp: grp)
  also have "\<dots> = (case map_of (byPersona ?rws) p of None \<Rightarrow> [] | Some arr \<Rightarrow> ?f arr)"
    by (rule concat_select_key [OF d])
  also have "\<dots> = ?f (filter (\<lambda>r. row_persona r = p) ?rws)"
  proof (cases "map_of (byPersona ?rws) p")
    case None
    then have "p \<notin> fst ` set (byPersona ?rws)" by (simp add: map_of_eq_None_iff)
    with ks have "filter (\<lambda>r. row_persona r = p) ?rws = []"
      by (auto simp: filter_empty_conv image_iff)
    with None show ?thesis by simp
  next
    case (Some arr)
    then have "(p, arr) \<in> set (byPersona ?rws)" by (rule map_of_SomeD)
    from ent [OF this] Some show ?thesis by simp
  qed
  finally show ?thesis .
qed

lemma outRows_base:
  assumes "a \<in> set (outRows h mode cls)"
  shows "baseRow a \<in> set (aggRows mode cls)"
proof -
  from assms have "a \<in> set (filter (\<lambda>b. row_persona b = row_persona a) (outRows h mode cls))" by simp
  then have "baseRow a \<in> baseRow ` set (filter (\<lambda>b. row_persona b = row_persona a) (outRows h mode cls))"
    by (rule imageI)
  then have "baseRow a \<in> set (map baseRow (filter (\<lambda>b. row_persona b = row_persona a) (outRows h mode cls)))"
    by (simp only: set_map)
  then show ?thesis
    unfolding persona_series momLoop_base by simp
qed
section \<open>The aggregates\<close>

lemma chain_out:
  "outRows plainHost dominant (classified DEFAULT_KEYWORDS (userMonthRows plainHost (parseCSV chainCSV)))
   = [\<lparr>row_month = js ''2025-08'', row_persona = js ''escalation'', users = 2, retained = 1,
        churned = 1, retention = 1 / 2, retention_mom = None, users_mom = None\<rparr>,
      \<lparr>row_month = js ''2025-10'', row_persona = js ''escalation'', users = 1, retained = 0,
        churned = 1, retention = 0, retention_mom = Some (- (1 / 2)), users_mom = Some (- 1)\<rparr>,
      \<lparr>row_month = js ''2025-09'', row_persona = js ''overload'', users = 2, retained = 0,
        churned = 2, retention = 0, retention_mom = None, users_mom = None\<rparr>]"
  by code_simp

lemma persona_keys_differ: "js ''overload'' \<noteq> js ''escalation''"
  by (simp add: js_def)

text \<open>
  C6. For the classified records of any CSV rows, any keyword dictionary and both modes,
  every emitted aggregate has \<open>retained + churned = users\<close>, its \<open>retention\<close> is
  \<open>retained / users\<close> (0 for no users; an emitted aggregate always has a user), and
  \<open>0 \<le> retention \<le> 1\<close>. The records come from \<open>userMonthRows\<close>, which holds one
  record per user and month; the retention is computed in the rationals.
\<close>

theorem aggregate_consistency:
  "\<forall>a \<in> set (outRows h mode (classified kws (userMonthRows h rawRows))).
       retained a + churned a = users a
     \<and> retention a = (if users a = 0 then 0 else of_nat (retained a) / of_nat (users a))
     \<and> 0 \<le> retention a \<and> retention a \<le> 1
     \<and> 0 < users a"
proof
  fix a
  assume "a \<in> set (outRows h mode (classified kws (userMonthRows h rawRows)))"
  then have b: "baseRow a \<in> set (aggRows mode (classified kws (userMonthRows h rawRows)))"
    by (rule outRows_base)
  from aggRows_counts [OF b]
  have c: "retained a + churned a = users a" "0 < users a"
    and r: "retention a = (if users a = 0 then 0 else of_nat (retained a) / of_nat (users a))"
    by (simp_all add: baseRow_def)
  from c have le: "retained a \<le> users a" by simp
  from c(2) r have r': "retention a = of_nat (retained a) / of_nat (users a)" by simp
  have "0 \<le> retention a" unfolding r' by simp
  moreover have "retention a \<le> 1" unfolding r' using le c(2) by simp
  ultimately show "retained a + churned a = users a
     \<and> retention a = (if users a = 0 then 0 else of_nat (retained a) / of_nat (users a))
     \<and> 0 \<le> retention a \<and> retention a \<le> 1
     \<and> 0 < users a"
    using c r by simp
qed

theorem aggregate_consistency_witness:
  "\<lparr>row_month = js ''2025-08'', row_persona = js ''escalation'', users = 2, retained = 1,
      churned = 1, retention = 1 / 2, retention_mom = None, users_mom = None\<rparr>
     \<in> set (outRows plainHost dominant
              (classified DEFAULT_KEYWORDS (userMonthRows plainHost (parseCSV chainCSV))))
   \<and> (1::nat) + 1 = 2 \<and> (1 / 2 :: rat) = of_nat 1 / of_nat 2 \<and> (0::rat) \<le> 1 / 2 \<and> (1 / 2 :: rat) \<le> 1"
proof -
  let ?a = "\<lparr>row_month = js ''2025-08'', row_persona = js ''escalation'', users = 2, retained = 1,
      churned = 1, retention = 1 / 2, retention_mom = None, users_mom = None\<rparr>"
  have m: "?a \<in> set (outRows plainHost dominant
              (classified DEFAULT_KEYWORDS (userMonthRows plainHost (parseCSV chainCSV))))"
    unfolding chain_out by simp
  from aggregate_consistency [of plainHost dominant DEFAULT_KEYWORDS "parseCSV chainCSV"] m
  have "retained ?a + churned ?a = users ?a
     \<and> retention ?a = (if users ?a = 0 then 0 else of_nat (retained ?a) / of_nat (users ?a))
     \<and> 0 \<le> retention ?a \<and> retention ?a \<le> 1 \<and> 0 < users ?a"
    by (rule bspec)
  with m show ?thesis by simp
qed
section \<open>The month-over-month deltas\<close>

lemma codeUnitCompare_total: "codeUnitCompare a b \<le> 0 \<or> codeUnitCompare b a \<le> 0"
  by (induction a b rule: codeUnitCompare.induct) auto

lemma codeUnitCompare_trans:
  "codeUnitCompare a b \<le> 0 \<Longrightarrow> codeUnitCompare b c \<le> 0 \<Longrightarrow> codeUnitCompare a c \<le> 0"
proof (induction a arbitrary: b c)
  case Nil
  then show ?case by (cases c) simp_all
next
  case (Cons x a)
  from Cons.prems(1) obtain y b' where b: "b = y # b'" by (cases b) auto
  from Cons.prems(2) b obtain z c' where c: "c = z # c'" by (cases c) auto
  from Cons.prems b c have xy: "x \<le> y" and yz: "y \<le> z"
    by (auto split: if_splits)
  show ?case
  proof (cases "x < z")
    case True
    then show ?thesis by (simp add: c)
  next
    case False
    with xy yz have e: "x = y" "y = z" by auto
    with Cons.prems b c have "codeUnitCompare a b' \<le> 0" "codeUnitCompare b' c' \<le> 0" by simp_all
    from Cons.IH [OF this] e show ?thesis by (simp add: c)
  qed
qed

lemma plainHost_compare:
  "\<forall>a b. localeCompare plainHost a b \<le> 0 \<or> localeCompare plainHost b a \<le> 0"
  "\<forall>a b c. localeCompare plainHost a b \<le> 0 \<and> localeCompare plainHost b c \<le> 0
      \<longrightarrow> localeCompare plainHost a c \<le> 0"
  using codeUnitCompare_total codeUnitCompare_trans by (auto simp: plainHost_def)

lemma insertBy_not_Nil [simp]: "insertBy cmp x xs \<noteq> []"
  by (cases xs) simp_all

lemma sortBy_eq_Nil [simp]: "sortBy cmp xs = [] \<longleftrightarrow> xs = []"
  by (cases xs) simp_all

text \<open>
  C7. For every persona, its emitted rows (in the order of the output) are its
  aggregates sorted by month with \<open>localeCompare\<close>, ascending whenever \<open>localeCompare\<close>
  is a total and transitive comparison. The first of them, the persona's earliest
  aggregated month, has \<open>null\<close> deltas; every later one has the difference of its
  retention and of its user count from the row just before it in that series. A month
  without an aggregate for the persona has no row in the series, so it is skipped and
  never counted as zero.
\<close>

theorem mom_delta_chain:
  fixes h :: host and mode :: dominanceMode and cls :: "classified_row list" and p :: jsstring
  defines "series \<equiv> filter (\<lambda>a. row_persona a = p) (outRows h mode cls)"
  shows
  "map baseRow series
      = sortBy (\<lambda>a b. localeCompare h (row_month a) (row_month b))
          (filter (\<lambda>r. row_persona r = p) (aggRows mode cls))
   \<and> ((\<forall>a b. localeCompare h a b \<le> 0 \<or> localeCompare h b a \<le> 0)
        \<and> (\<forall>a b c. localeCompare h a b \<le> 0 \<and> localeCompare h b c \<le> 0 \<longrightarrow> localeCompare h a c \<le> 0)
       \<longrightarrow> sorted_wrt (\<lambda>a b. localeCompare h (row_month a) (row_month b) \<le> 0) series)
   \<and> (series \<noteq> [] \<longrightarrow> retention_mom (hd series) = None \<and> users_mom (hd series) = None)
   \<and> (\<forall>i. Suc i < length series \<longrightarrow>
          retention_mom (series ! Suc i) = Some (retention (series ! Suc i) - retention (series ! i))
        \<and> users_mom (series ! Suc i) = Some (int (users (series ! Suc i)) - int (users (series ! i))))"
proof -
  let ?cmp = "\<lambda>a b. localeCompare h (row_month a) (row_month b)"
  let ?arr = "sortBy ?cmp (filter (\<lambda>r. row_persona r = p) (aggRows mode cls))"
  have s: "series = momLoop None ?arr" unfolding series_def by (rule persona_series)
  have base: "map baseRow series = ?arr" unfolding s by (rule momLoop_base)
  have len: "length series = length ?arr" unfolding s by simp
  have fld: "retention (series ! i) = retention (?arr ! i)" "users (series ! i) = users (?arr ! i)"
    if "i < length series" for i
  proof -
    from that have "baseRow (series ! i) = ?arr ! i"
      using nth_map [of i series baseRow] base by simp
    then have "retention (baseRow (series ! i)) = retention (?arr ! i)"
      "users (baseRow (series ! i)) = users (?arr ! i)" by simp_all
    then show "retention (series ! i) = retention (?arr ! i)" "users (series ! i) = users (?arr ! i)"
      by (simp_all add: baseRow_def)
  qed
  have srt: "sorted_wrt (\<lambda>a b. localeCompare h (row_month a) (row_month b) \<le> 0) series"
    if total: "\<forall>a b. localeCompare h a b \<le> 0 \<or> localeCompare h b a \<le> 0"
      and trans: "\<forall>a b c. localeCompare h a b \<le> 0 \<and> localeCompare h b c \<le> 0 \<longrightarrow> localeCompare h a c \<le> 0"
  proof -
    have t1: "\<forall>a b. ?cmp a b \<le> 0 \<or> ?cmp b a \<le> 0" using total by blast
    have t2: "\<forall>a b c. ?cmp a b \<le> 0 \<and> ?cmp b c \<le> 0 \<longrightarrow> ?cmp a c \<le> 0" using trans by blast
    have "sorted_wrt (\<lambda>a b. ?cmp a b \<le> 0) (map baseRow series)"
      unfolding base by (rule sorted_sortBy [OF t1 t2])
    then show ?thesis by (simp add: sorted_wrt_map baseRow_def)
  qed
  have first: "retention_mom (hd series) = None \<and> users_mom (hd series) = None" if "series \<noteq> []"
  proof -
    from that len have "?arr \<noteq> []" by auto
    then show ?thesis unfolding s by (rule momLoop_hd)
  qed
  have later: "retention_mom (series ! Suc i) = Some (retention (series ! Suc i) - retention (series ! i))
        \<and> users_mom (series ! Suc i) = Some (int (users (series ! Suc i)) - int (users (series ! i)))"
    if "Suc i < length series" for i
  proof -
    from that len have l: "Suc i < length ?arr" by simp
    from that have i: "i < length series" by simp
    from momLoop_Suc [OF l, of None] show ?thesis
      unfolding s [symmetric] by (simp add: fld [OF that] fld [OF i])
  qed
  from base srt first later show ?thesis by blast
qed

theorem mom_delta_chain_witness:
  "map (\<lambda>a. (row_month a, users a, retention a, retention_mom a, users_mom a))
     (filter (\<lambda>a. row_persona a = js ''escalation'')
        (outRows plainHost dominant
           (classified DEFAULT_KEYWORDS (userMonthRows plainHost (parseCSV chainCSV)))))
     = [(js ''2025-08'', 2, 1 / 2, None, None), (js ''2025-10'', 1, 0, Some (- (1 / 2)), Some (- 1))]
   \<and> sorted_wrt (\<lambda>a b. localeCompare plainHost (row_month a) (row_month b) \<le> 0)
        (filter (\<lambda>a. row_persona a = js ''escalation'')
          (outRows plainHost dominant
             (classified DEFAULT_KEYWORDS (userMonthRows plainHost (parseCSV chainCSV)))))
   \<and> users_mom
        (filter (\<lambda>a. row_persona a = js ''escalation'')
          (outRows plainHost dominant
             (classified DEFAULT_KEYWORDS (userMonthRows plainHost (parseCSV chainCSV)))) ! Suc 0)
       = Some (int 1 - int 2)"
proof -
  let ?cls = "classified DEFAULT_KEYWORDS (userMonthRows plainHost (parseCSV chainCSV))"
  let ?series = "filter (\<lambda>a. row_persona a = js ''escalation'') (outRows plainHost dominant ?cls)"
  have s: "?series
     = [\<lparr>row_month = js ''2025-08'', row_persona = js ''escalation'', users = 2, retained = 1,
          churned = 1, retention = 1 / 2, retention_mom = None, users_mom = None\<rparr>,
        \<lparr>row_month = js ''2025-10'', row_persona = js ''escalation'', users = 1, retained = 0,
          churned = 1, retention = 0, retention_mom = Some (- (1 / 2)), users_mom = Some (- 1)\<rparr>]"
    unfolding chain_out by (simp add: persona_keys_differ)
  note t = mom_delta_chain [where h = plainHost and mode = dominant and cls = ?cls
      and p = "js ''escalation''"]
  from t plainHost_compare
  have srt: "sorted_wrt (\<lambda>a b. localeCompare plainHost (row_month a) (row_month b) \<le> 0) ?series"
    by blast
  have l: "Suc 0 < length ?series" unfolding s by simp
  from t l have "users_mom (?series ! Suc 0)
      = Some (int (users (?series ! Suc 0)) - int (users (?series ! 0)))"
    by blast
  moreover have "users (?series ! Suc 0) = 1" "users (?series ! 0) = 2" unfolding s by simp_all
  ultimately have d: "users_mom (?series ! Suc 0) = Some (int 1 - int 2)" by simp
  have v: "map (\<lambda>a. (row_month a, users a, retention a, retention_mom a, users_mom a)) ?series
     = [(js ''2025-08'', 2, 1 / 2, None, None), (js ''2025-10'', 1, 0, Some (- (1 / 2)), Some (- 1))]"
    unfolding s by simp
  from v srt d show ?thesis by (intro conjI)
qed
section \<open>Which buckets a record counts for\<close>

lemma bucketUsers_contributions:
  "bucketUsers (\<lambda>r. True) k (contributions mode cls)
     = {user_id r | r p. r \<in> set cls \<and> p \<in> set (personasToCount mode r) \<and> keyFor (month r) p = k}"
proof -
  have "bucketUsers (\<lambda>r. True) k (contributions mode cls)
      = {user_id (fst c) | c. c \<in> set (contributions mode cls) \<and> keyFor (month (fst c)) (snd c) = k}"
    unfolding bucketUsers_def set_map set_filter by (auto simp: image_iff) blast+
  also have "\<dots> = {user_id r | r p. (r, p) \<in> set (contributions mode cls) \<and> keyFor (month r) p = k}"
    by auto
  finally show ?thesis by (simp add: contributions_mem)
qed

lemma bucket_of_contribution:
  assumes "r \<in> set cls" and "p \<in> set (personasToCount mode r)"
  shows "\<exists>a. (keyFor (month r) p, a) \<in> set (aggregate mode cls) \<and> user_id r \<in> set (agg_users a)"
proof -
  from assms have c: "(r, p) \<in> set (contributions mode cls)" by (simp add: contributions_mem)
  note inv = aggInv_aggregate [of mode cls]
  from inv c have "keyFor (month r) p \<in> fst ` set (aggregate mode cls)"
    unfolding aggInv_def by force
  then obtain a where a: "(keyFor (month r) p, a) \<in> set (aggregate mode cls)" by auto
  with inv have "set (agg_users a) = bucketUsers (\<lambda>r. True) (keyFor (month r) p) (contributions mode cls)"
    unfolding aggInv_def by fastforce
  with assms have "user_id r \<in> set (agg_users a)"
    unfolding bucketUsers_contributions by auto
  with a show ?thesis by auto
qed

lemma bucket_users:
  assumes "(k, a) \<in> set (aggregate mode cls)"
  shows "set (agg_users a)
      = {user_id r | r p. r \<in> set cls \<and> p \<in> set (personasToCount mode r) \<and> keyFor (month r) p = k}"
    and "users (toRow a) = card (set (agg_users a))"
proof -
  note inv = aggInv_aggregate [of mode cls]
  from inv assms have s: "set (agg_users a) = bucketUsers (\<lambda>r. True) k (contributions mode cls)"
    and d: "distinct (agg_users a)"
    unfolding aggInv_def by fastforce+
  from s show "set (agg_users a)
      = {user_id r | r p. r \<in> set cls \<and> p \<in> set (personasToCount mode r) \<and> keyFor (month r) p = k}"
    by (simp only: bucketUsers_contributions)
  from d show "users (toRow a) = card (set (agg_users a))"
    by (simp add: toRow_def Let_def distinct_card)
qed

lemma bucket_identity:
  assumes "(k, a) \<in> set (aggregate mode cls)" and "r \<in> set cls" and "keyFor (month r) p = k"
    and nu: "\<forall>r\<in>set cls. 95 \<notin> set (month r)"
  shows "agg_month a = month r \<and> agg_persona a = p"
proof -
  note inv = aggInv_aggregate [of mode cls]
  from inv assms(1) obtain c where c: "c \<in> set (contributions mode cls)"
      "keyFor (month (fst c)) (snd c) = k" "agg_month a = month (fst c)" "agg_persona a = snd c"
    unfolding aggInv_def by fastforce
  from c(1) have "fst c \<in> set cls"
    using contributions_mem [of "fst c" "snd c" mode cls] by simp
  with nu assms(2) have n: "95 \<notin> set (month (fst c))" "95 \<notin> set (month r)" by simp_all
  from c(2) assms(3) have "keyFor (month (fst c)) (snd c) = keyFor (month r) p" by simp
  from keyFor_inj [OF n this] c(3,4) show ?thesis by simp
qed

lemma escalation_dominant:
  assumes "keywordsMatch t kws \<lparr>key = js ''escalation'', priority = 3\<rparr>"
    and "\<not> keywordsMatch t kws \<lparr>key = js ''trust_erosion'', priority = 1\<rparr>"
    and "\<not> keywordsMatch t kws \<lparr>key = js ''emotional'', priority = 2\<rparr>"
  shows "fst (classifyDominantPersona t kws) = Some (js ''escalation'')"
  using assms by (simp add: classify_fst PERSONAS_def)

text \<open>
  C8. In mode \<open>dominant\<close> a record counts for the one bucket of its dominant persona when
  that is set, and for none otherwise; in mode \<open>multi\<close> it counts for the personas of
  the catalog whose flag is true, each once. Every persona a record counts for has a
  bucket under the key of the record's month and that persona, and the record's user is
  among its users; the users of a bucket are exactly the users of the records that count
  for it, and its \<open>users\<close> number is the number of these distinct users. In particular a
  record flagged for escalation and overload counts for both buckets in mode \<open>multi\<close>,
  and only for escalation in mode \<open>dominant\<close> when escalation is its dominant persona
  (which the classifier answers when no keyword of trust_erosion or emotional matches).
\<close>

theorem mode_contributions:
  "personasToCount dominant r
      = (case dominant_persona r of None \<Rightarrow> [] | Some d \<Rightarrow> if d = [] then [] else [d])
   \<and> length (personasToCount dominant r) \<le> 1
   \<and> personasToCount multi r = filter (\<lambda>k. flagOf (flags r) k) (map key PERSONAS)
   \<and> distinct (personasToCount multi r)
   \<and> (\<forall>r\<in>set cls. \<forall>p\<in>set (personasToCount mode r).
         \<exists>a. (keyFor (month r) p, a) \<in> set (aggregate mode cls) \<and> user_id r \<in> set (agg_users a)
            \<and> ((\<forall>r\<in>set cls. 95 \<notin> set (month r)) \<longrightarrow> agg_month a = month r \<and> agg_persona a = p))
   \<and> (\<forall>(k, a)\<in>set (aggregate mode cls).
         set (agg_users a)
           = {user_id r | r p. r \<in> set cls \<and> p \<in> set (personasToCount mode r) \<and> keyFor (month r) p = k}
         \<and> users (toRow a) = card (set (agg_users a)))
   \<and> (flagOf (flags r) (js ''escalation'') \<and> flagOf (flags r) (js ''overload'')
        \<longrightarrow> js ''escalation'' \<in> set (personasToCount multi r)
            \<and> js ''overload'' \<in> set (personasToCount multi r))
   \<and> (dominant_persona r = Some (js ''escalation'')
        \<longrightarrow> personasToCount dominant r = [js ''escalation''])
   \<and> (keywordsMatch t kws \<lparr>key = js ''escalation'', priority = 3\<rparr>
        \<and> \<not> keywordsMatch t kws \<lparr>key = js ''trust_erosion'', priority = 1\<rparr>
        \<and> \<not> keywordsMatch t kws \<lparr>key = js ''emotional'', priority = 2\<rparr>
        \<longrightarrow> fst (classifyDominantPersona t kws) = Some (js ''escalation''))"
proof (intro conjI)
  show "personasToCount dominant r
      = (case dominant_persona r of None \<Rightarrow> [] | Some d \<Rightarrow> if d = [] then [] else [d])"
    by (simp add: personasToCount_def split: option.splits)
  show "length (personasToCount dominant r) \<le> 1"
    by (simp add: personasToCount_def split: option.splits)
  show "personasToCount multi r = filter (\<lambda>k. flagOf (flags r) k) (map key PERSONAS)"
    by (simp add: personasToCount_def)
  show "distinct (personasToCount multi r)"
    using distinct_persona_keys by (simp add: personasToCount_def)
  show "\<forall>r\<in>set cls. \<forall>p\<in>set (personasToCount mode r).
         \<exists>a. (keyFor (month r) p, a) \<in> set (aggregate mode cls) \<and> user_id r \<in> set (agg_users a)
            \<and> ((\<forall>r\<in>set cls. 95 \<notin> set (month r)) \<longrightarrow> agg_month a = month r \<and> agg_persona a = p)"
  proof (intro ballI)
    fix r p assume rp: "r \<in> set cls" "p \<in> set (personasToCount mode r)"
    from bucket_of_contribution [OF rp] obtain a
      where a: "(keyFor (month r) p, a) \<in> set (aggregate mode cls)" "user_id r \<in> set (agg_users a)"
      by auto
    have "agg_month a = month r \<and> agg_persona a = p" if "\<forall>r\<in>set cls. 95 \<notin> set (month r)"
      using bucket_identity [OF a(1) rp(1) refl that] .
    with a show "\<exists>a. (keyFor (month r) p, a) \<in> set (aggregate mode cls) \<and> user_id r \<in> set (agg_users a)
            \<and> ((\<forall>r\<in>set cls. 95 \<notin> set (month r)) \<longrightarrow> agg_month a = month r \<and> agg_persona a = p)"
      by blast
  qed
  show "\<forall>(k, a)\<in>set (aggregate mode cls).
         set (agg_users a)
           = {user_id r | r p. r \<in> set cls \<and> p \<in> set (personasToCount mode r) \<and> keyFor (month r) p = k}
         \<and> users (toRow a) = card (set (agg_users a))"
    using bucket_users by fast
  show "flagOf (flags r) (js ''escalation'') \<and> flagOf (flags r) (js ''overload'')
        \<longrightarrow> js ''escalation'' \<in> set (personasToCount multi r)
            \<and> js ''overload'' \<in> set (personasToCount multi r)"
    by (simp add: personasToCount_def persona_keys)
  show "dominant_persona r = Some (js ''escalation'')
        \<longrightarrow> personasToCount dominant r = [js ''escalation'']"
    by (simp add: personasToCount_def js_def)
  show "keywordsMatch t kws \<lparr>key = js ''escalation'', priority = 3\<rparr>
        \<and> \<not> keywordsMatch t kws \<lparr>key = js ''trust_erosion'', priority = 1\<rparr>
        \<and> \<not> keywordsMatch t kws \<lparr>key = js ''emotional'', priority = 2\<rparr>
        \<longrightarrow> fst (classifyDominantPersona t kws) = Some (js ''escalation'')"
    using escalation_dominant by blast
qed

lemma multi_classified:
  "classified DEFAULT_KEYWORDS (userMonthRows plainHost (parseCSV multiCSV))
     = [\<lparr>user_id = js ''u1'', month = js ''2025-09'', text' = js ''Opnieuw onduidelijk'',
         active_next_month = False, dominant_persona = Some (js ''escalation''),
         flags = [(js ''trust_erosion'', False), (js ''emotional'', False), (js ''escalation'', True),
                  (js ''reliability'', False), (js ''overload'', True), (js ''veteran'', False),
                  (js ''suggestion'', False)]\<rparr>]"
  by code_simp

lemma multi_rows:
  "map (\<lambda>a. (row_month a, row_persona a, users a))
     (aggRows multi (classified DEFAULT_KEYWORDS (userMonthRows plainHost (parseCSV multiCSV))))
     = [(js ''2025-09'', js ''escalation'', 1), (js ''2025-09'', js ''overload'', 1)]"
  "map (\<lambda>a. (row_month a, row_persona a, users a))
     (aggRows dominant (classified DEFAULT_KEYWORDS (userMonthRows plainHost (parseCSV multiCSV))))
     = [(js ''2025-09'', js ''escalation'', 1)]"
  unfolding multi_classified by code_simp+

theorem mode_contributions_witness:
  "flagOf (flags (hd (classified DEFAULT_KEYWORDS (userMonthRows plainHost (parseCSV multiCSV)))))
      (js ''escalation'')
   \<and> flagOf (flags (hd (classified DEFAULT_KEYWORDS (userMonthRows plainHost (parseCSV multiCSV)))))
      (js ''overload'')
   \<and> dominant_persona (hd (classified DEFAULT_KEYWORDS (userMonthRows plainHost (parseCSV multiCSV))))
      = Some (js ''escalation'')
   \<and> js ''escalation'' \<in> set (personasToCount multi
        (hd (classified DEFAULT_KEYWORDS (userMonthRows plainHost (parseCSV multiCSV)))))
   \<and> js ''overload'' \<in> set (personasToCount multi
        (hd (classified DEFAULT_KEYWORDS (userMonthRows plainHost (parseCSV multiCSV)))))
   \<and> personasToCount dominant
        (hd (classified DEFAULT_KEYWORDS (userMonthRows plainHost (parseCSV multiCSV))))
      = [js ''escalation'']
   \<and> map (\<lambda>a. (row_month a, row_persona a, users a))
        (aggRows multi (classified DEFAULT_KEYWORDS (userMonthRows plainHost (parseCSV multiCSV))))
      = [(js ''2025-09'', js ''escalation'', 1), (js ''2025-09'', js ''overload'', 1)]
   \<and> map (\<lambda>a. (row_month a, row_persona a, users a))
        (aggRows dominant (classified DEFAULT_KEYWORDS (userMonthRows plainHost (parseCSV multiCSV))))
      = [(js ''2025-09'', js ''escalation'', 1)]"
proof -
  let ?cls = "classified DEFAULT_KEYWORDS (userMonthRows plainHost (parseCSV multiCSV))"
  have f: "flagOf (flags (hd ?cls)) (js ''escalation'')" "flagOf (flags (hd ?cls)) (js ''overload'')"
    unfolding multi_classified by code_simp+
  have d: "dominant_persona (hd ?cls) = Some (js ''escalation'')"
    unfolding multi_classified by simp
  note t = mode_contributions [where r = "hd ?cls" and cls = ?cls and mode = multi]
  from t f have m: "js ''escalation'' \<in> set (personasToCount multi (hd ?cls))
      \<and> js ''overload'' \<in> set (personasToCount multi (hd ?cls))"
    by blast
  from t d have o: "personasToCount dominant (hd ?cls) = [js ''escalation'']"
    by blast
  from f d m o multi_rows show ?thesis by (intro conjI) simp_all
qed

end
